theory Spec2Isabelle
  imports Main "HOL-Library.Multiset"
begin

section \<open>The patch applier of scripts/fix-unused-manual.py\<close>

text \<open>
  The script reads an ESLint report, and for each file of the report prefixes the
  variables reported as unused with an underscore, line by line, then writes the file
  back. The development below embeds the script: Python strings are \<open>string\<close>s (the
  code points below 256), the file system is a map from paths to files, every
  exception the script can raise is a value of \<open>exn\<close>, and the regular expressions of
  the script are terms of a small datatype run by a backtracking matcher.
\<close>

subsection \<open>Exceptions\<close>

type_synonym path = string

text \<open>
  \<open>OSError\<close>: \<open>open\<close> failed on the path. \<open>JSONDecodeError\<close>: \<open>json.load\<close> failed.
  \<open>IndexError\<close>: \<open>lines[line_num]\<close> out of range. \<open>ReError\<close>: \<open>re.sub\<close> rejected the
  replacement string. The script catches none of them.
\<close>

datatype exn = OSError path | JSONDecodeError | IndexError | ReError

subsection \<open>Characters and strings\<close>

text \<open>\<open>\s\<close> and \<open>str.isspace\<close>, \<open>\w\<close>, on the code points below 256.\<close>

definition is_space :: "char \<Rightarrow> bool" where
  "is_space c = (let n = (of_char c :: nat) in
     (9 \<le> n \<and> n \<le> 13) \<or> (28 \<le> n \<and> n \<le> 32) \<or> n = 133 \<or> n = 160)"

definition is_word :: "char \<Rightarrow> bool" where
  "is_word c = (let n = (of_char c :: nat) in
     (48 \<le> n \<and> n \<le> 57) \<or> (65 \<le> n \<and> n \<le> 90) \<or> n = 95 \<or> (97 \<le> n \<and> n \<le> 122) \<or>
     n = 170 \<or> n = 178 \<or> n = 179 \<or> n = 181 \<or> n = 185 \<or> n = 186 \<or>
     (188 \<le> n \<and> n \<le> 190) \<or> (192 \<le> n \<and> n \<le> 214) \<or> (216 \<le> n \<and> n \<le> 246) \<or> 248 \<le> n)"

text \<open>\<open>w in s\<close>, \<open>s.startswith(w)\<close> and \<open>s.strip()\<close>.\<close>

definition startswith :: "string \<Rightarrow> string \<Rightarrow> bool" where
  "startswith s w = (take (length w) s = w)"

fun py_in :: "string \<Rightarrow> string \<Rightarrow> bool" where
  "py_in w [] = (w = [])"
| "py_in w (c # cs) = (startswith (c # cs) w \<or> py_in w cs)"

definition strip :: "string \<Rightarrow> string" where
  "strip s = rev (dropWhile is_space (rev (dropWhile is_space s)))"

text \<open>
  The position that \<open>xs[i]\<close> reads or writes: \<open>i\<close> itself from \<open>0\<close> to \<open>len(xs) - 1\<close>,
  \<open>len(xs) + i\<close> for a negative \<open>i\<close> down to \<open>-len(xs)\<close>, and IndexError (\<open>None\<close>) for any
  other \<open>i\<close>.
\<close>

definition py_index :: "'a list \<Rightarrow> int \<Rightarrow> nat option" where
  "py_index xs i =
     (if 0 \<le> i \<and> i < int (length xs) then Some (nat i)
      else if i < 0 \<and> - int (length xs) \<le> i then Some (nat (int (length xs) + i))
      else None)"

subsection \<open>Regular expressions\<close>

text \<open>
  The constructs the script's patterns use: literal text (also what \<open>re.escape\<close> of a
  string matches), \<open>c*\<close> and \<open>c+\<close> for a character class \<open>c\<close> (greedy), the word boundary
  \<open>\b\<close>, \<open>r?\<close>, alternation and sequence.
\<close>

datatype cclass = Space | Word | Not char

fun in_class :: "cclass \<Rightarrow> char \<Rightarrow> bool" where
  "in_class Space c = is_space c"
| "in_class Word c = is_word c"
| "in_class (Not d) c = (c \<noteq> d)"

datatype regex =
    Lit string
  | Star cclass
  | Plus cclass
  | Bnd
  | Opt regex
  | Alt regex regex
  | Seq regex regex

text \<open>
  \<open>\b\<close> holds between the previous character \<open>p\<close> (\<open>None\<close> at the start of the string)
  and the rest \<open>s\<close> when exactly one side is a word character.
\<close>

definition at_boundary :: "char option \<Rightarrow> string \<Rightarrow> bool" where
  "at_boundary p s =
     ((case p of None \<Rightarrow> False | Some c \<Rightarrow> is_word c) \<noteq>
      (case s of [] \<Rightarrow> False | c # _ \<Rightarrow> is_word c))"

definition prev_char :: "char option \<Rightarrow> string \<Rightarrow> nat \<Rightarrow> char option" where
  "prev_char p s k = (if k = 0 then p else Some (s ! (k - 1)))"

text \<open>
  \<open>ends r p s\<close>: the lengths of the prefixes of \<open>s\<close> that \<open>r\<close> matches, in the order in
  which the backtracking matcher finds them (greedy repetition: longest first). The
  match \<open>re\<close> reports is the first one.
\<close>

fun ends :: "regex \<Rightarrow> char option \<Rightarrow> string \<Rightarrow> nat list" where
  "ends (Lit w) p s = (if startswith s w then [length w] else [])"
| "ends (Star c) p s = rev [0 ..< Suc (length (takeWhile (in_class c) s))]"
| "ends (Plus c) p s = rev [1 ..< Suc (length (takeWhile (in_class c) s))]"
| "ends Bnd p s = (if at_boundary p s then [0] else [])"
| "ends (Opt r) p s = ends r p s @ [0]"
| "ends (Alt r1 r2) p s = ends r1 p s @ ends r2 p s"
| "ends (Seq r1 r2) p s =
     concat (map (\<lambda>k. map ((+) k) (ends r2 (prev_char p s k) (drop k s))) (ends r1 p s))"

text \<open>\<open>re.search\<close>: the leftmost match, as (start, length).\<close>

fun search :: "regex \<Rightarrow> char option \<Rightarrow> string \<Rightarrow> (nat \<times> nat) option" where
  "search r p [] = (case ends r p [] of [] \<Rightarrow> None | k # _ \<Rightarrow> Some (0, k))"
| "search r p (c # cs) =
     (case ends r p (c # cs) of
        k # _ \<Rightarrow> Some (0, k)
      | [] \<Rightarrow> map_option (\<lambda>(i, k). (Suc i, k)) (search r (Some c) cs))"

definition re_search :: "regex \<Rightarrow> string \<Rightarrow> (nat \<times> nat) option" where
  "re_search r s = search r None s"

text \<open>
  \<open>re.sub\<close> with the replacement already expanded to a function \<open>f\<close> of the matched
  text: the non-overlapping matches, leftmost first, are replaced. After an empty match
  the next match at the same place must not be empty (\<open>adv\<close>).
\<close>

function sub_from :: "regex \<Rightarrow> (string \<Rightarrow> string) \<Rightarrow> bool \<Rightarrow> char option \<Rightarrow> string \<Rightarrow> string" where
  "sub_from r f adv p [] = (if adv \<or> ends r p [] = [] then [] else f [])"
| "sub_from r f adv p (c # cs) =
     (if adv then
        (case filter ((<) 0) (ends r p (c # cs)) of
           [] \<Rightarrow> c # sub_from r f False (Some c) cs
         | k # _ \<Rightarrow> f (take k (c # cs)) @ sub_from r f False (prev_char p (c # cs) k) (drop (k - 1) cs))
      else
        (case ends r p (c # cs) of
           [] \<Rightarrow> c # sub_from r f False (Some c) cs
         | k # _ \<Rightarrow>
             if k = 0 then f [] @ sub_from r f True p (c # cs)
             else f (take k (c # cs)) @ sub_from r f False (prev_char p (c # cs) k) (drop (k - 1) cs)))"
  by pat_completeness auto
termination
  by (relation "measure (\<lambda>(r, f, adv, p, s). 2 * length s + (if adv then 0 else 1))") auto

text \<open>
  The replacement string of \<open>re.sub\<close> is used as it is when it holds no backslash.
  Otherwise \<open>re\<close> processes its escapes, which either fails (\<open>re.error\<close>: a bad escape, a
  reference to a group the pattern does not have) or gives the text to substitute as a
  function of the match. That processing is the library's and is a parameter here.
\<close>

type_synonym template = "string \<Rightarrow> (string \<Rightarrow> string) option"

definition expand :: "template \<Rightarrow> string \<Rightarrow> (string \<Rightarrow> string) option" where
  "expand tmpl repl = (if CHR 0x5C \<in> set repl then tmpl repl else Some (\<lambda>_. repl))"

definition re_sub :: "template \<Rightarrow> regex \<Rightarrow> string \<Rightarrow> string \<Rightarrow> exn + string" where
  "re_sub tmpl r repl s =
     (case expand tmpl repl of
        None \<Rightarrow> Inl ReError
      | Some f \<Rightarrow> Inr (sub_from r f False None s))"

subsection \<open>The patterns of the script\<close>

text \<open>
  \<^verbatim>\<open>'([^']+)' is (defined but never used|assigned a value but never used)\<close>
\<close>

definition unused_re :: regex where
  "unused_re =
     Seq (Lit [CHR 0x27]) (Seq (Plus (Not (CHR 0x27))) (Seq (Lit (CHR 0x27 # '' is ''))
       (Alt (Lit ''defined but never used'') (Lit ''assigned a value but never used''))))"

text \<open>
  \<open>match.group(1)\<close>: the group \<open>[^']+\<close> starts after the quote that opens the match and
  must be followed by a quote, so it is the run of characters up to the next quote.
\<close>

definition var_name_of :: "string \<Rightarrow> string option" where
  "var_name_of msg =
     (case re_search unused_re msg of
        None \<Rightarrow> None
      | Some (i, k) \<Rightarrow> Some (takeWhile (\<lambda>c. c \<noteq> CHR 0x27) (drop (Suc i) msg)))"

text \<open>\<^verbatim>\<open>\bcatch\s*\(\s*{re.escape(var_name)}\s*\)\<close>\<close>

definition catch_re :: "string \<Rightarrow> regex" where
  "catch_re var_name =
     Seq Bnd (Seq (Lit ''catch'') (Seq (Star Space) (Seq (Lit ''('') (Seq (Star Space)
       (Seq (Lit var_name) (Seq (Star Space) (Lit '')'')))))))"

text \<open>\<^verbatim>\<open>\b{re.escape(var_name)}\b\<close>\<close>

definition word_re :: "string \<Rightarrow> regex" where
  "word_re var_name = Seq Bnd (Seq (Lit var_name) Bnd)"

text \<open>\<^verbatim>\<open>\b(async\s+)?function\s+\w+\s*\(\<close>\<close>

definition function_re :: regex where
  "function_re =
     Seq Bnd (Seq (Opt (Seq (Lit ''async'') (Plus Space))) (Seq (Lit ''function'')
       (Seq (Plus Space) (Seq (Plus Word) (Seq (Star Space) (Lit ''(''))))))"

text \<open>\<^verbatim>\<open>\b(const|let|var)\b\<close>\<close>

definition decl_re :: regex where
  "decl_re = Seq Bnd (Seq (Alt (Lit ''const'') (Alt (Lit ''let'') (Lit ''var''))) Bnd)"

subsection \<open>The report and the files\<close>

record eslint_message =
  line :: int
  message :: string

record file_data =
  filePath :: path
  messages :: "eslint_message list"

text \<open>
  The report as \<open>json.load\<close> gives it: a list of entries with the keys \<open>filePath\<close> and
  \<open>messages\<close>, each message with the keys \<open>line\<close> and \<open>message\<close>. A report of another
  shape (a missing key, a line that is not an integer) is outside the model.

  A file that can be opened for reading has its text, as text mode gives it, says
  whether it can be opened for writing, and how many characters can be written to it
  before the write fails (\<open>None\<close>: as many as needed). In the file system \<open>None\<close> is a
  path that cannot be opened.
\<close>

record text_file =
  content :: string
  writable :: bool
  capacity :: "nat option"

type_synonym file_system = "path \<Rightarrow> text_file option"

text \<open>\<open>f.readlines()\<close>: the lines, each with its newline; \<open>f.writelines(lines)\<close>.\<close>

fun readlines :: "string \<Rightarrow> string list" where
  "readlines [] = []"
| "readlines (c # cs) =
     (if c = CHR 0x0A then [c] # readlines cs
      else (case readlines cs of [] \<Rightarrow> [[c]] | l # ls \<Rightarrow> (c # l) # ls))"

definition read_file :: "file_system \<Rightarrow> path \<Rightarrow> exn + string list" where
  "read_file fs file_path =
     (case fs file_path of
        None \<Rightarrow> Inl (OSError file_path)
      | Some f \<Rightarrow> Inr (readlines (content f)))"

text \<open>
  \<open>open(file_path, 'w')\<close> fails and leaves the file as it is, or succeeds and empties the
  file; \<open>f.writelines(lines)\<close> then writes the whole text, or fails once the file holds the
  characters it has room for. The result is the file system after the attempt and the
  exception, if any.
\<close>

definition write_file :: "file_system \<Rightarrow> path \<Rightarrow> string list \<Rightarrow> file_system \<times> exn option" where
  "write_file fs file_path lines =
     (case fs file_path of
        None \<Rightarrow> (fs, Some (OSError file_path))
      | Some f \<Rightarrow>
          if \<not> writable f then (fs, Some (OSError file_path))
          else
            (case capacity f of
               None \<Rightarrow> (fs(file_path \<mapsto> f\<lparr>content := concat lines\<rparr>), None)
             | Some k \<Rightarrow>
                 if length (concat lines) \<le> k
                 then (fs(file_path \<mapsto> f\<lparr>content := concat lines\<rparr>), None)
                 else (fs(file_path \<mapsto> f\<lparr>content := take k (concat lines)\<rparr>),
                       Some (OSError file_path))))"

subsection \<open>The script\<close>

text \<open>
  What the script prints is not modelled. The chain of replacement strategies:
  \<open>new_line\<close> for a line and a variable.
\<close>

definition new_line :: "template \<Rightarrow> string \<Rightarrow> string \<Rightarrow> string \<Rightarrow> exn + string" where
  "new_line tmpl var_name msg l =
     (let new_var_name = CHR ''_'' # var_name in
      if py_in ''catch'' l \<and> py_in ''Allowed unused caught errors'' msg then
        re_sub tmpl (catch_re var_name) (''catch ('' @ new_var_name @ '')'') l
      else if py_in ''import'' l \<and> (py_in ''{'' l \<or> py_in ''import *'' l) then
        re_sub tmpl (word_re var_name) new_var_name l
      else if re_search function_re l \<noteq> None \<or> py_in ''=>'' l \<or> startswith (strip l) ''async '' then
        re_sub tmpl (word_re var_name) new_var_name l
      else if re_search decl_re l \<noteq> None then
        re_sub tmpl (word_re var_name) new_var_name l
      else
        re_sub tmpl (word_re var_name) new_var_name l)"

text \<open>
  The body of the loop over the errors of a file, on the state it changes: the buffer
  \<open>lines\<close> and the counter \<open>total_fixed\<close>.
\<close>

definition process_error ::
  "template \<Rightarrow> string list \<times> nat \<Rightarrow> eslint_message \<Rightarrow> exn + string list \<times> nat" where
  "process_error tmpl st error =
     (let (lines, total_fixed) = st; line_num = line error - 1 in
      case var_name_of (message error) of
        None \<Rightarrow> Inr (lines, total_fixed)
      | Some var_name \<Rightarrow>
          if startswith var_name ''_'' then Inr (lines, total_fixed)
          else (case py_index lines line_num of
                  None \<Rightarrow> Inl IndexError
                | Some i \<Rightarrow>
                    (case new_line tmpl var_name (message error) (lines ! i) of
                       Inl e \<Rightarrow> Inl e
                     | Inr nl \<Rightarrow>
                         if nl \<noteq> lines ! i then Inr (lines[i := nl], total_fixed + 1)
                         else Inr (lines, total_fixed))))"

fun process_errors ::
  "template \<Rightarrow> string list \<times> nat \<Rightarrow> eslint_message list \<Rightarrow> exn + string list \<times> nat" where
  "process_errors tmpl st [] = Inr st"
| "process_errors tmpl st (error # errors) =
     (case process_error tmpl st error of
        Inl e \<Rightarrow> Inl e
      | Inr st' \<Rightarrow> process_errors tmpl st' errors)"

text \<open>
  \<open>sorted(file_data['messages'], key=lambda x: x['line'], reverse=True)\<close>: descending,
  and stable (messages of the same line keep the order of the report).
\<close>

definition sorted_errors :: "eslint_message list \<Rightarrow> eslint_message list" where
  "sorted_errors msgs = sort_key (\<lambda>x. - line x) msgs"

text \<open>
  The loop over the files of the report. The result is the file system when the script
  stops, with the exception that stopped it or the final \<open>total_fixed\<close>. A write that
  fails leaves the file as \<open>write_file\<close> says.
\<close>

fun process_files ::
  "template \<Rightarrow> file_system \<Rightarrow> nat \<Rightarrow> file_data list \<Rightarrow> file_system \<times> (exn + nat)" where
  "process_files tmpl fs total_fixed [] = (fs, Inr total_fixed)"
| "process_files tmpl fs total_fixed (fd # fds) =
     (case read_file fs (filePath fd) of
        Inl e \<Rightarrow> (fs, Inl e)
      | Inr lines \<Rightarrow>
          (case process_errors tmpl (lines, total_fixed) (sorted_errors (messages fd)) of
             Inl e \<Rightarrow> (fs, Inl e)
           | Inr (lines', total_fixed') \<Rightarrow>
               (case write_file fs (filePath fd) lines' of
                  (fs', Some e) \<Rightarrow> (fs', Inl e)
                | (fs', None) \<Rightarrow> process_files tmpl fs' total_fixed' fds)))"

text \<open>
  The whole script. \<open>json.load\<close> is the library's and a parameter: \<open>None\<close> where the text
  is not a report.
\<close>

definition report_path :: path where
  "report_path = ''/tmp/eslint-unused-vars-filtered.json''"

definition main ::
  "template \<Rightarrow> (string \<Rightarrow> file_data list option) \<Rightarrow> file_system \<Rightarrow> file_system \<times> (exn + nat)" where
  "main tmpl json_load fs =
     (case fs report_path of
        None \<Rightarrow> (fs, Inl (OSError report_path))
      | Some f \<Rightarrow>
          (case json_load (content f) of
             None \<Rightarrow> (fs, Inl JSONDecodeError)
           | Some eslint_output \<Rightarrow> process_files tmpl fs 0 eslint_output))"

subsection \<open>Words of a line\<close>

text \<open>
  A line as the specification reads it: a sequence of words (maximal runs of word
  characters) and of single characters that are not word characters. \<open>lex\<close> splits a
  line, \<open>unlex\<close> gives the text back, and \<open>wf_tokens\<close> are the token lists that \<open>lex\<close>
  gives.
\<close>

datatype token = W string | G char

fun text_of :: "token \<Rightarrow> string" where
  "text_of (W w) = w"
| "text_of (G c) = [c]"

definition unlex :: "token list \<Rightarrow> string" where
  "unlex ts = concat (map text_of ts)"

fun lex :: "string \<Rightarrow> token list" where
  "lex [] = []"
| "lex (c # cs) =
     (if is_word c then
        (case lex cs of
           W w # ts \<Rightarrow> W (c # w) # ts
         | ts \<Rightarrow> W [c] # ts)
      else G c # lex cs)"

fun is_W :: "token \<Rightarrow> bool" where
  "is_W (W w) = True"
| "is_W (G c) = False"

fun wf_tokens :: "token list \<Rightarrow> bool" where
  "wf_tokens [] = True"
| "wf_tokens (G c # ts) = (\<not> is_word c \<and> wf_tokens ts)"
| "wf_tokens (W w # ts) =
     (w \<noteq> [] \<and> list_all is_word w \<and> (case ts of [] \<Rightarrow> True | t # _ \<Rightarrow> \<not> is_W t) \<and> wf_tokens ts)"

text \<open>
  A name made of word characters; \<open>good_name\<close>: one that the script does not skip.
\<close>

definition word_name :: "string \<Rightarrow> bool" where
  "word_name v = (v \<noteq> [] \<and> list_all is_word v)"

definition good_name :: "string \<Rightarrow> bool" where
  "good_name v = (word_name v \<and> \<not> startswith v ''_'')"

text \<open>
  Replacing all whole-word occurrences of \<open>v\<close>, in the words of the specification: every
  word of the line that is \<open>v\<close> becomes \<open>_v\<close>.
\<close>

definition rename_words :: "string \<Rightarrow> token list \<Rightarrow> token list" where
  "rename_words v ts = map (\<lambda>t. if t = W v then W (CHR ''_'' # v) else t) ts"

text \<open>
  Replacing only the parenthesized occurrence, in the words of the specification: a
  word \<open>catch\<close> followed by \<open>( v )\<close>, with any white space before the parentheses and
  around the name, becomes \<open>catch (_v)\<close>. \<open>catch_clause v ts\<close> is what follows the
  clause when \<open>ts\<close> starts with one.
\<close>

fun space_token :: "token \<Rightarrow> bool" where
  "space_token (G c) = is_space c"
| "space_token (W w) = False"

definition close_paren :: "token list \<Rightarrow> token list option" where
  "close_paren ts =
     (case dropWhile space_token ts of
        G d # rest \<Rightarrow> if d = CHR '')'' then Some rest else None
      | _ \<Rightarrow> None)"

definition name_then :: "string \<Rightarrow> token list \<Rightarrow> token list option" where
  "name_then v ts =
     (case dropWhile space_token ts of
        W w # ts' \<Rightarrow> if w = v then close_paren ts' else None
      | _ \<Rightarrow> None)"

definition catch_clause :: "string \<Rightarrow> token list \<Rightarrow> token list option" where
  "catch_clause v ts =
     (case dropWhile space_token ts of
        G c # ts' \<Rightarrow> if c = CHR ''('' then name_then v ts' else None
      | _ \<Rightarrow> None)"

function rename_catch :: "string \<Rightarrow> token list \<Rightarrow> token list" where
  "rename_catch v [] = []"
| "rename_catch v (t # ts) =
     (if t = W ''catch'' then
        (case catch_clause v ts of
           Some rest \<Rightarrow>
             [W ''catch'', G CHR '' '', G CHR ''('', W (CHR ''_'' # v), G CHR '')''] @ rename_catch v rest
         | None \<Rightarrow> t # rename_catch v ts)
      else t # rename_catch v ts)"
  by pat_completeness auto
termination
proof (relation "measure (\<lambda>(v, ts). length ts)", goal_cases)
  case 1
  show ?case by simp
next
  case (2 v t ts)
  then show ?case by simp
next
  case (3 v t ts rest)
  then obtain ts2 ts4 where
    a: "dropWhile space_token ts = G CHR ''('' # ts2"
    and b: "dropWhile space_token ts2 = W v # ts4"
    and c: "dropWhile space_token ts4 = G CHR '')'' # rest"
    by (auto simp: catch_clause_def name_then_def close_paren_def
        split: list.splits token.splits if_splits)
  have "length rest < length ts4"
    using length_dropWhile_le [of space_token ts4] c by simp
  also have "length ts4 < length ts2"
    using length_dropWhile_le [of space_token ts2] b by simp
  also have "length ts2 < length ts"
    using length_dropWhile_le [of space_token ts] a by simp
  finally show ?case by simp
next
  case (4 v t ts)
  then show ?case by simp
qed

text \<open>
  The text \<open>catch\<close> occurs in a line; a catch clause for \<open>v\<close> occurs in a line; and the
  rewrite that the script applies to a line for the variable \<open>v\<close> of the message
  \<open>msg\<close>, on the words of the line.
\<close>

definition has_catch :: "token list \<Rightarrow> bool" where
  "has_catch ts = list_ex (\<lambda>t. case t of W u \<Rightarrow> py_in ''catch'' u | G c \<Rightarrow> False) ts"

fun catch_occurs :: "string \<Rightarrow> token list \<Rightarrow> bool" where
  "catch_occurs v [] = False"
| "catch_occurs v (t # ts) = ((t = W ''catch'' \<and> catch_clause v ts \<noteq> None) \<or> catch_occurs v ts)"

definition rewrite_tokens :: "string \<Rightarrow> string \<Rightarrow> token list \<Rightarrow> token list" where
  "rewrite_tokens v msg ts =
     (if has_catch ts \<and> py_in ''Allowed unused caught errors'' msg then rename_catch v ts
      else rename_words v ts)"

text \<open>The replacement string of the catch strategy.\<close>

definition catch_repl :: "string \<Rightarrow> string" where
  "catch_repl v = ''catch ('' @ (CHR ''_'' # v) @ '')''"

text \<open>
  The parts of the catch pattern after the word \<open>catch\<close>, and two notions used to
  reason about the matcher: what is left of the text after each match, and a pattern
  whose matches end with a closing parenthesis.
\<close>

definition close_re :: regex where
  "close_re = Seq (Star Space) (Lit '')'')"

definition name_re :: "string \<Rightarrow> regex" where
  "name_re v = Seq (Star Space) (Seq (Lit v) close_re)"

definition open_re :: "string \<Rightarrow> regex" where
  "open_re v = Seq (Star Space) (Seq (Lit ''('') (name_re v))"

definition rests :: "regex \<Rightarrow> char option \<Rightarrow> string \<Rightarrow> string list" where
  "rests r p s = map (\<lambda>k. drop k s) (ends r p s)"

definition ends_paren :: "regex \<Rightarrow> bool" where
  "ends_paren r = (\<forall>p s k. k \<in> set (ends r p s) \<longrightarrow> 0 < k \<and> s ! (k - 1) = CHR '')'')"

text \<open>
  A line on which the message naming \<open>v\<close> has nothing left to rewrite; a message whose
  variable name is made of word characters; a message that has nothing left to rewrite
  in a buffer.
\<close>

definition settled :: "string \<Rightarrow> string \<Rightarrow> string \<Rightarrow> bool" where
  "settled v msg l =
     (let ts = lex l in
      if has_catch ts \<and> py_in ''Allowed unused caught errors'' msg then \<not> catch_occurs v ts
      else W v \<notin> set ts)"

definition word_var :: "eslint_message \<Rightarrow> bool" where
  "word_var error =
     (case var_name_of (message error) of None \<Rightarrow> True | Some v \<Rightarrow> list_all is_word v)"

definition done_msg :: "string list \<Rightarrow> eslint_message \<Rightarrow> bool" where
  "done_msg lines error =
     (case var_name_of (message error) of
        None \<Rightarrow> True
      | Some v \<Rightarrow>
          startswith v ''_'' \<or>
          (case py_index lines (line error - 1) of
             None \<Rightarrow> False
           | Some i \<Rightarrow> settled v (message error) (lines ! i)))"

subsection \<open>Example data\<close>

text \<open>The message ESLint gives for an unused variable \<open>v\<close>, used in the examples.\<close>

definition unused_msg :: "string \<Rightarrow> string" where
  "unused_msg v = CHR 0x27 # v @ CHR 0x27 # '' is defined but never used''"

text \<open>The message ESLint gives for an unused variable \<open>v\<close> of a catch clause.\<close>

definition caught_msg :: "string \<Rightarrow> string" where
  "caught_msg v = unused_msg v @ ''. Allowed unused caught errors must match /^_/u.''"

text \<open>A file system with one file, used in the examples.\<close>

definition example_fs :: file_system where
  "example_fs =
     [''b.ts'' \<mapsto> \<lparr>content = ''const x = 1;'', writable = True, capacity = None\<rparr>]"

text \<open>A file system with one file of two lines.\<close>

definition example_fs2 :: file_system where
  "example_fs2 = [''a.ts'' \<mapsto>
     \<lparr>content = ''const x = 1;'' @ [CHR 0x0A] @ ''const y = 2;'' @ [CHR 0x0A],
      writable = True, capacity = None\<rparr>]"




subsection \<open>Counting the fixes from the buffers\<close>




section \<open>Properties\<close>

subsection \<open>Basic facts\<close>

lemma py_index_less: "py_index xs i = Some k \<Longrightarrow> k < length xs"
  by (auto simp: py_index_def Let_def split: if_splits)

lemma process_error_length:
  "process_error tmpl (lines, n) error = Inr (lines', n') \<Longrightarrow> length lines' = length lines"
  by (auto simp: process_error_def Let_def split: option.splits if_splits sum.splits)

lemma process_errors_length:
  "process_errors tmpl (lines, n) errors = Inr (lines', n') \<Longrightarrow> length lines' = length lines"
proof (induction errors arbitrary: lines n)
  case Nil
  then show ?case by simp
next
  case (Cons error errors)
  then show ?case
    by (auto split: sum.splits dest: process_error_length)
qed

subsection \<open>The number of lines\<close>



subsection \<open>A line number beyond the end of the file\<close>


lemma process_error_out_of_range:
  assumes "int (length lines) < line error"
  shows "process_error tmpl (lines, n) error =
     (case var_name_of (message error) of
        None \<Rightarrow> Inr (lines, n)
      | Some var_name \<Rightarrow>
          if startswith var_name ''_'' then Inr (lines, n) else Inl IndexError)"
proof -
  have "py_index lines (line error - 1) = None"
    using assms by (simp add: py_index_def Let_def)
  then show ?thesis
    by (simp add: process_error_def Let_def split: option.splits)
qed

lemma process_errors_out_of_range:
  assumes "\<forall>e \<in> set pre. int (length lines) < line e"
    and "int (length lines) < line error"
    and "var_name_of (message error) = Some var_name"
    and "\<not> startswith var_name ''_''"
  shows "process_errors tmpl (lines, n) (pre @ error # post) = Inl IndexError"
  using assms(1)
proof (induction pre)
  case Nil
  show ?case
    using assms(2-4) by (simp add: process_error_out_of_range)
next
  case (Cons e pre)
  then have "int (length lines) < line e" by simp
  then have "process_error tmpl (lines, n) e = Inr (lines, n) \<or>
      process_error tmpl (lines, n) e = Inl IndexError"
    by (simp add: process_error_out_of_range split: option.splits)
  with Cons show ?case by auto
qed

lemma sorted_errors_split:
  assumes "error \<in> set msgs"
  shows "\<exists>pre post. sorted_errors msgs = pre @ error # post \<and> (\<forall>e \<in> set pre. line error \<le> line e)"
proof -
  have "error \<in> set (sorted_errors msgs)"
    using assms by (simp add: sorted_errors_def)
  then obtain pre post where sp: "sorted_errors msgs = pre @ error # post"
    by (auto dest: split_list)
  have "sorted (map (\<lambda>x. - line x) (sorted_errors msgs))"
    by (simp add: sorted_errors_def)
  then have "\<forall>e \<in> set pre. - line e \<le> - line error"
    by (simp add: sp sorted_append)
  with sp show ?thesis by auto
qed

text \<open>
  C2 (as the script has it). For a message whose line number is greater than the number
  of lines of the buffer: it is skipped, buffer and counter unchanged, only when its text
  does not name an unused variable or the name already starts with an underscore.
  Otherwise \<open>lines[line_num]\<close> raises IndexError, which the script does not catch: the
  loop over the messages of the file ends with it, the file is not written back and the
  run stops.
\<close>

theorem out_of_range_line:
  assumes "int (length lines) < line error"
  shows "process_error tmpl (lines, total_fixed) error =
           (case var_name_of (message error) of
              None \<Rightarrow> Inr (lines, total_fixed)
            | Some var_name \<Rightarrow>
                if startswith var_name ''_'' then Inr (lines, total_fixed) else Inl IndexError) \<and>
         (\<forall>var_name fs fd fds.
            var_name_of (message error) = Some var_name \<longrightarrow> \<not> startswith var_name ''_'' \<longrightarrow>
            error \<in> set (messages fd) \<longrightarrow> read_file fs (filePath fd) = Inr lines \<longrightarrow>
            process_files tmpl fs total_fixed (fd # fds) = (fs, Inl IndexError))"
proof (intro conjI allI impI)
  show "process_error tmpl (lines, total_fixed) error =
           (case var_name_of (message error) of
              None \<Rightarrow> Inr (lines, total_fixed)
            | Some var_name \<Rightarrow>
                if startswith var_name ''_'' then Inr (lines, total_fixed) else Inl IndexError)"
    using assms by (rule process_error_out_of_range)
next
  fix var_name fs and fd :: file_data and fds
  assume v: "var_name_of (message error) = Some var_name" "\<not> startswith var_name ''_''"
    and m: "error \<in> set (messages fd)" and r: "read_file fs (filePath fd) = Inr lines"
  from sorted_errors_split [OF m] obtain pre post
    where sp: "sorted_errors (messages fd) = pre @ error # post"
      and le: "\<forall>e \<in> set pre. line error \<le> line e"
    by blast
  from le assms have "\<forall>e \<in> set pre. int (length lines) < line e" by auto
  then have "process_errors tmpl (lines, total_fixed) (sorted_errors (messages fd)) = Inl IndexError"
    unfolding sp using assms v by (rule process_errors_out_of_range)
  then show "process_files tmpl fs total_fixed (fd # fds) = (fs, Inl IndexError)"
    using r by simp
qed

theorem out_of_range_line_counterexample:
  "int (length [''const x = 1;'']) < line \<lparr>line = 2, message = unused_msg ''x''\<rparr> \<and>
   process_error (\<lambda>_. None) ([''const x = 1;''], 0) \<lparr>line = 2, message = unused_msg ''x''\<rparr>
     = Inl IndexError \<and>
   process_error (\<lambda>_. None) ([''const x = 1;''], 0) \<lparr>line = 2, message = unused_msg ''x''\<rparr>
     \<noteq> Inr ([''const x = 1;''], 0)"
  by code_simp

theorem out_of_range_line_witness:
  "int (length [''const x = 1;'']) < line \<lparr>line = 2, message = unused_msg ''x''\<rparr> \<and>
   process_error (\<lambda>_. None) ([''const x = 1;''], 0) \<lparr>line = 2, message = unused_msg ''x''\<rparr>
     = Inl IndexError \<and>
   process_files (\<lambda>_. None) example_fs 0
     [\<lparr>filePath = ''b.ts'', messages = [\<lparr>line = 2, message = unused_msg ''x''\<rparr>]\<rparr>]
     = (example_fs, Inl IndexError)"
proof -
  let ?e = "\<lparr>line = 2, message = unused_msg ''x''\<rparr>"
  let ?fd = "\<lparr>filePath = ''b.ts'', messages = [?e]\<rparr>"
  have h: "int (length [''const x = 1;'']) < line ?e" by simp
  have v: "var_name_of (message ?e) = Some ''x''" by code_simp
  have u: "\<not> startswith ''x'' ''_''" by code_simp
  have r: "read_file example_fs (filePath ?fd) = Inr [''const x = 1;'']"
    by (simp add: read_file_def example_fs_def)
  have m: "?e \<in> set (messages ?fd)" by simp
  note th = out_of_range_line [OF h, of "\<lambda>_. None" 0]
  from th have "process_error (\<lambda>_. None) ([''const x = 1;''], 0) ?e = Inl IndexError"
    using v u by simp
  moreover from th v u m r have "process_files (\<lambda>_. None) example_fs 0 [?fd] = (example_fs, Inl IndexError)"
    by blast
  ultimately show ?thesis using h by blast
qed

subsection \<open>Line numbers below one\<close>

lemma py_index_negative:
  assumes "- int (length xs) \<le> i" and "i < 0"
  shows "py_index xs i = Some (nat (int (length xs) + i))"
  using assms by (simp add: py_index_def Let_def)

lemma py_index_wrap:
  assumes "- int (length xs) \<le> i" and "i < 0"
  shows "py_index xs (int (length xs) + i) = py_index xs i"
  using assms by (simp add: py_index_def Let_def)

text \<open>
  C9. A line field \<open>n\<close> with \<open>-len(lines) \<le> n - 1 < 0\<close> is not rejected: the index
  \<open>n - 1\<close> counts from the end of the buffer, and the message is processed exactly as
  if its line field were \<open>len(lines) + n\<close>. With the line field 0 the index is -1 and
  the line is the last one. When the message names a variable without a leading
  underscore, the substitution is attempted on that line.
\<close>

theorem negative_index_from_end:
  assumes "- int (length lines) \<le> line error - 1" and "line error - 1 < 0"
  shows "py_index lines (line error - 1) = Some (nat (int (length lines) + (line error - 1))) \<and>
    (line error = 0 \<longrightarrow> lines ! nat (int (length lines) + (line error - 1)) = last lines) \<and>
    process_error tmpl (lines, total_fixed) error =
      process_error tmpl (lines, total_fixed) (error\<lparr>line := int (length lines) + line error\<rparr>) \<and>
    (\<forall>var_name. var_name_of (message error) = Some var_name \<longrightarrow> \<not> startswith var_name ''_'' \<longrightarrow>
       process_error tmpl (lines, total_fixed) error =
         (let i = nat (int (length lines) + (line error - 1)) in
          case new_line tmpl var_name (message error) (lines ! i) of
            Inl e \<Rightarrow> Inl e
          | Inr nl \<Rightarrow>
              if nl \<noteq> lines ! i then Inr (lines[i := nl], total_fixed + 1)
              else Inr (lines, total_fixed)))"
proof -
  have ix: "py_index lines (line error - 1) = Some (nat (int (length lines) + (line error - 1)))"
    using assms by (rule py_index_negative)
  have wrap: "py_index lines (int (length lines) + line error - 1) = py_index lines (line error - 1)"
    using py_index_wrap [OF assms] by (simp add: algebra_simps)
  have last: "lines ! nat (int (length lines) + (line error - 1)) = last lines" if "line error = 0"
  proof -
    from assms that have "lines \<noteq> []" by auto
    moreover have "nat (int (length lines) + (line error - 1)) = length lines - 1"
      using that by simp
    ultimately show ?thesis by (simp add: last_conv_nth)
  qed
  have same: "process_error tmpl (lines, total_fixed) error =
      process_error tmpl (lines, total_fixed) (error\<lparr>line := int (length lines) + line error\<rparr>)"
    using wrap by (simp add: process_error_def Let_def split: option.splits)
  have att: "process_error tmpl (lines, total_fixed) error =
         (let i = nat (int (length lines) + (line error - 1)) in
          case new_line tmpl var_name (message error) (lines ! i) of
            Inl e \<Rightarrow> Inl e
          | Inr nl \<Rightarrow>
              if nl \<noteq> lines ! i then Inr (lines[i := nl], total_fixed + 1)
              else Inr (lines, total_fixed))"
    if "var_name_of (message error) = Some var_name" "\<not> startswith var_name ''_''" for var_name
    using that ix by (simp add: process_error_def Let_def)
  from ix last same att show ?thesis by blast
qed

theorem negative_index_from_end_witness:
  "- int (length [''const x = 1;'', ''const y = 2;'']) \<le> line \<lparr>line = 0, message = unused_msg ''y''\<rparr> - 1 \<and>
   line \<lparr>line = 0, message = unused_msg ''y''\<rparr> - 1 < 0 \<and>
   py_index [''const x = 1;'', ''const y = 2;''] (line \<lparr>line = 0, message = unused_msg ''y''\<rparr> - 1) = Some 1 \<and>
   process_error (\<lambda>_. None) ([''const x = 1;'', ''const y = 2;''], 0) \<lparr>line = 0, message = unused_msg ''y''\<rparr>
     = Inr ([''const x = 1;'', ''const _y = 2;''], 1)"
proof -
  let ?e = "\<lparr>line = 0, message = unused_msg ''y''\<rparr>"
  let ?ls = "[''const x = 1;'', ''const y = 2;'']"
  have h1: "- int (length ?ls) \<le> line ?e - 1" by simp
  have h2: "line ?e - 1 < 0" by simp
  have v: "var_name_of (message ?e) = Some ''y''" by code_simp
  have u: "\<not> startswith ''y'' ''_''" by code_simp
  have nl: "new_line (\<lambda>_. None) ''y'' (message ?e) ''const y = 2;'' = Inr ''const _y = 2;''"
    by code_simp
  note th = negative_index_from_end [OF h1 h2, of "\<lambda>_. None" 0]
  from th have ix: "py_index ?ls (line ?e - 1) = Some 1" by simp
  from th v u have "process_error (\<lambda>_. None) (?ls, 0) ?e =
         (let i = nat (int (length ?ls) + (line ?e - 1)) in
          case new_line (\<lambda>_. None) ''y'' (message ?e) (?ls ! i) of
            Inl e \<Rightarrow> Inl e
          | Inr nl \<Rightarrow>
              if nl \<noteq> ?ls ! i then Inr (?ls[i := nl], 0 + 1)
              else Inr (?ls, 0))"
    by blast
  then have "process_error (\<lambda>_. None) (?ls, 0) ?e = Inr ([''const x = 1;'', ''const _y = 2;''], 1)"
    using nl by simp
  with h1 h2 ix show ?thesis by blast
qed

subsection \<open>The report cannot be loaded\<close>

text \<open>
  C7. When the report cannot be opened, or \<open>json.load\<close> fails on its text, the script
  stops with that exception before the loop over the files: the file system is as it
  was.
\<close>

theorem report_load_failure:
  assumes "fs report_path = None \<or> (\<exists>f. fs report_path = Some f \<and> json_load (content f) = None)"
  shows "main tmpl json_load fs =
    (fs, Inl (case fs report_path of None \<Rightarrow> OSError report_path | Some f \<Rightarrow> JSONDecodeError))"
  using assms by (auto simp: main_def)

theorem report_load_failure_witness:
  "example_fs report_path = None \<and>
   main (\<lambda>_. None) (\<lambda>_. None) example_fs = (example_fs, Inl (OSError report_path))"
proof -
  have h: "example_fs report_path = None"
    by (simp add: example_fs_def report_path_def)
  with report_load_failure [of example_fs "\<lambda>_. None" "\<lambda>_. None"] show ?thesis
    by simp
qed

subsection \<open>A report in two parts\<close>



lemma example_readlines: "readlines ''const x = 1;'' = [''const x = 1;'']"
  by code_simp

subsection \<open>The lines no message addresses\<close>

lemma py_index_length: "length xs = length ys \<Longrightarrow> py_index xs i = py_index ys i"
  by (simp add: py_index_def)

lemma process_error_frame:
  assumes "process_error tmpl (lines, n) error = Inr (lines', n')"
    and "py_index lines (line error - 1) \<noteq> Some i"
  shows "lines' ! i = lines ! i"
  using assms
  by (auto simp: process_error_def Let_def split: option.splits if_splits sum.splits)

lemma process_errors_frame:
  assumes "process_errors tmpl (lines, n) errors = Inr (lines', n')"
    and "\<forall>e \<in> set errors. py_index lines (line e - 1) \<noteq> Some i"
  shows "lines' ! i = lines ! i"
  using assms
proof (induction errors arbitrary: lines n)
  case Nil
  then show ?case by simp
next
  case (Cons error errors)
  from Cons.prems(1) obtain l1 n1 where
    st: "process_error tmpl (lines, n) error = Inr (l1, n1)"
    and rest: "process_errors tmpl (l1, n1) errors = Inr (lines', n')"
    by (auto split: sum.splits)
  have len: "length l1 = length lines"
    using st by (rule process_error_length)
  have "\<forall>e \<in> set errors. py_index l1 (line e - 1) \<noteq> Some i"
    using Cons.prems(2) py_index_length [OF len] by simp
  with Cons.IH rest have "lines' ! i = l1 ! i" by blast
  moreover have "l1 ! i = lines ! i"
    using st Cons.prems(2) by (auto intro: process_error_frame)
  ultimately show ?case by simp
qed

lemma example_fix0:
  "process_errors (\<lambda>_. None) ([''const x = 1;''], 0)
     (sorted_errors [\<lparr>line = 0, message = unused_msg ''x''\<rparr>]) = Inr ([''const _x = 1;''], 1)"
  by code_simp

lemma example2_readlines:
  "readlines (''const x = 1;'' @ [CHR 0x0A] @ ''const y = 2;'' @ [CHR 0x0A]) =
     [''const x = 1;'' @ [CHR 0x0A], ''const y = 2;'' @ [CHR 0x0A]]"
  by code_simp

lemma example2_fix:
  "process_errors (\<lambda>_. None) ([''const x = 1;'' @ [CHR 0x0A], ''const y = 2;'' @ [CHR 0x0A]], 0)
     (sorted_errors [\<lparr>line = 1, message = unused_msg ''x''\<rparr>]) =
   Inr ([''const _x = 1;'' @ [CHR 0x0A], ''const y = 2;'' @ [CHR 0x0A]], 1)"
  by code_simp

text \<open>
  C10 (as the script has it). When a file of the report has been processed, the text
  written back is the concatenation of the buffer, the buffer has the length it had,
  and every line that \<open>lines[line - 1]\<close> addresses for no message of the entry is as it
  was read. The line a message addresses is line \<open>line\<close> when \<open>line \<ge> 1\<close>, and is counted
  from the end of the buffer when \<open>line \<le> 0\<close>.
\<close>

theorem frame_property:
  assumes "process_files tmpl fs total_fixed [fd] = (fs', Inr total_fixed')"
  shows "\<exists>lines lines'.
    read_file fs (filePath fd) = Inr lines \<and>
    map_option content (fs' (filePath fd)) = Some (concat lines') \<and>
    length lines' = length lines \<and>
    (\<forall>i < length lines.
       (\<forall>e \<in> set (messages fd). py_index lines (line e - 1) \<noteq> Some i) \<longrightarrow> lines' ! i = lines ! i)"
proof -
  from assms obtain lines lines' where
    r: "read_file fs (filePath fd) = Inr lines"
    and p: "process_errors tmpl (lines, total_fixed) (sorted_errors (messages fd)) = Inr (lines', total_fixed')"
    and w: "write_file fs (filePath fd) lines' = (fs', None)"
    by (auto split: sum.splits prod.splits option.splits)
  have c: "map_option content (fs' (filePath fd)) = Some (concat lines')"
    using w by (auto simp: write_file_def split: option.splits if_splits)
  have l: "length lines' = length lines"
    using p by (rule process_errors_length)
  have f: "lines' ! i = lines ! i"
    if "\<forall>e \<in> set (messages fd). py_index lines (line e - 1) \<noteq> Some i" for i
  proof -
    from that have "\<forall>e \<in> set (sorted_errors (messages fd)). py_index lines (line e - 1) \<noteq> Some i"
      by (simp add: sorted_errors_def)
    with p show ?thesis by (rule process_errors_frame)
  qed
  from r c l f show ?thesis by blast
qed

theorem frame_property_witness:
  "process_files (\<lambda>_. None) example_fs2 0
     [\<lparr>filePath = ''a.ts'', messages = [\<lparr>line = 1, message = unused_msg ''x''\<rparr>]\<rparr>]
   = (example_fs2(''a.ts'' \<mapsto> \<lparr>content = ''const _x = 1;'' @ [CHR 0x0A] @ ''const y = 2;'' @ [CHR 0x0A],
        writable = True, capacity = None\<rparr>), Inr 1) \<and>
   (\<exists>lines'. map_option content
       ((example_fs2(''a.ts'' \<mapsto> \<lparr>content = ''const _x = 1;'' @ [CHR 0x0A] @ ''const y = 2;'' @ [CHR 0x0A],
        writable = True, capacity = None\<rparr>)) ''a.ts'') = Some (concat lines') \<and>
      length lines' = 2 \<and> lines' ! 1 = ''const y = 2;'' @ [CHR 0x0A])"
proof -
  let ?fd = "\<lparr>filePath = ''a.ts'', messages = [\<lparr>line = 1, message = unused_msg ''x''\<rparr>]\<rparr>"
  let ?fs' = "example_fs2(''a.ts'' \<mapsto> \<lparr>content = ''const _x = 1;'' @ [CHR 0x0A] @ ''const y = 2;'' @ [CHR 0x0A],
        writable = True, capacity = None\<rparr>)"
  let ?lines = "[''const x = 1;'' @ [CHR 0x0A], ''const y = 2;'' @ [CHR 0x0A]]"
  have run: "process_files (\<lambda>_. None) example_fs2 0 [?fd] = (?fs', Inr 1)"
    using example2_readlines example2_fix
    by (simp add: example_fs2_def read_file_def write_file_def)
  have r: "read_file example_fs2 (filePath ?fd) = Inr ?lines"
    using example2_readlines by (simp add: example_fs2_def read_file_def)
  from frame_property [OF run] r obtain lines' where
    c: "map_option content (?fs' (filePath ?fd)) = Some (concat lines')"
    and l: "length lines' = length ?lines"
    and f: "\<forall>i < length ?lines.
       (\<forall>e \<in> set (messages ?fd). py_index ?lines (line e - 1) \<noteq> Some i) \<longrightarrow> lines' ! i = ?lines ! i"
    by auto
  have "\<forall>e \<in> set (messages ?fd). py_index ?lines (line e - 1) \<noteq> Some 1"
    by (simp add: py_index_def)
  with f have "lines' ! 1 = ?lines ! 1" by simp
  with c l run show ?thesis by auto
qed

theorem frame_property_counterexample:
  "line \<lparr>line = 0, message = unused_msg ''x''\<rparr> \<noteq> 1 \<and>
   read_file example_fs ''b.ts'' = Inr [''const x = 1;''] \<and>
   map_option content (fst (process_files (\<lambda>_. None) example_fs 0
       [\<lparr>filePath = ''b.ts'', messages = [\<lparr>line = 0, message = unused_msg ''x''\<rparr>]\<rparr>]) ''b.ts'')
     = Some ''const _x = 1;''"
  by (simp add: example_fs_def read_file_def write_file_def example_readlines example_fix0)

subsection \<open>The order of the messages\<close>

lemma sorted_errors_descending: "sorted (rev (map line (sorted_errors msgs)))"
proof -
  have "sorted (map (\<lambda>x. - line x) (sorted_errors msgs))"
    by (simp add: sorted_errors_def)
  then have "sorted_wrt (\<lambda>x y. line y \<le> line x) (sorted_errors msgs)"
    by (simp add: sorted_map)
  then show ?thesis
    by (simp add: sorted_wrt_rev sorted_wrt_map)
qed

lemma sorted_errors_lines: "map line (sorted_errors msgs) = rev (sort (map line msgs))"
proof -
  have "sort (map line msgs) = rev (map line (sorted_errors msgs))"
  proof (rule properties_for_sort)
    have "mset (rev (map line (sorted_errors msgs))) = image_mset line (mset (sorted_errors msgs))"
      by simp
    also have "\<dots> = mset (map line msgs)"
      by (simp add: sorted_errors_def)
    finally show "mset (rev (map line (sorted_errors msgs))) = mset (map line msgs)" .
    show "sorted (rev (map line (sorted_errors msgs)))"
      by (rule sorted_errors_descending)
  qed
  then show ?thesis by simp
qed

lemma sorted_errors_stable:
  "filter (\<lambda>e. line e = k) (sorted_errors msgs) = filter (\<lambda>e. line e = k) msgs"
  using sort_key_stable [of "\<lambda>x. - line x" "- k" msgs]
  by (simp add: sorted_errors_def)

lemma sorted_errors_order_independent:
  assumes "mset msgs' = mset msgs"
  shows "map line (sorted_errors msgs') = map line (sorted_errors msgs)"
proof -
  have "mset (map line msgs') = mset (map line msgs)"
    using assms by (metis mset_map)
  then have "sort (map line msgs') = sort (map line msgs)"
    by (metis mset_sort properties_for_sort sorted_sort)
  then show ?thesis by (simp add: sorted_errors_lines)
qed

lemma higher_lines_frame:
  assumes "process_errors tmpl (lines, n) errors = Inr (lines', n')"
    and "\<forall>e \<in> set errors. l < line e" and "1 \<le> l"
  shows "py_index lines' (l - 1) = py_index lines (l - 1) \<and>
         lines' ! nat (l - 1) = lines ! nat (l - 1)"
proof
  show "py_index lines' (l - 1) = py_index lines (l - 1)"
    using process_errors_length [OF assms(1)] by (rule py_index_length)
  have "\<forall>e \<in> set errors. py_index lines (line e - 1) \<noteq> Some (nat (l - 1))"
    using assms(2,3) by (auto simp: py_index_def Let_def split: if_splits)
  with assms(1) show "lines' ! nat (l - 1) = lines ! nat (l - 1)"
    by (rule process_errors_frame)
qed

text \<open>
  C6 (as the script has it). The messages of a file are processed in descending order
  of their line numbers (messages of the same line in the order of the report), and
  the sequence of line numbers does not depend on the order of the report. An edit at a
  higher line number leaves as it was the line that a lower line number \<open>l \<ge> 1\<close>
  addresses, so the substitution later applied there is applied to the text that was
  read.
\<close>

theorem descending_order:
  "sorted (rev (map line (sorted_errors msgs))) \<and>
   mset (sorted_errors msgs) = mset msgs \<and>
   (\<forall>k. filter (\<lambda>e. line e = k) (sorted_errors msgs) = filter (\<lambda>e. line e = k) msgs) \<and>
   (\<forall>msgs'. mset msgs' = mset msgs \<longrightarrow>
      map line (sorted_errors msgs') = map line (sorted_errors msgs)) \<and>
   (\<forall>tmpl lines n errors lines' n' l.
      process_errors tmpl (lines, n) errors = Inr (lines', n') \<longrightarrow>
      (\<forall>e \<in> set errors. l < line e) \<longrightarrow> 1 \<le> l \<longrightarrow>
      py_index lines' (l - 1) = py_index lines (l - 1) \<and>
      lines' ! nat (l - 1) = lines ! nat (l - 1))"
proof (intro conjI allI impI)
  show "sorted (rev (map line (sorted_errors msgs)))"
    by (rule sorted_errors_descending)
  show "mset (sorted_errors msgs) = mset msgs"
    by (simp add: sorted_errors_def)
  show "filter (\<lambda>e. line e = k) (sorted_errors msgs) = filter (\<lambda>e. line e = k) msgs" for k
    by (rule sorted_errors_stable)
  show "map line (sorted_errors msgs') = map line (sorted_errors msgs)"
    if "mset msgs' = mset msgs" for msgs'
    using that by (rule sorted_errors_order_independent)
next
  fix tmpl lines n and errors :: "eslint_message list" and lines' n' l
  assume "process_errors tmpl (lines, n) errors = Inr (lines', n')"
    "\<forall>e \<in> set errors. l < line e" "1 \<le> l"
  then have *: "py_index lines' (l - 1) = py_index lines (l - 1) \<and>
         lines' ! nat (l - 1) = lines ! nat (l - 1)"
    by (rule higher_lines_frame)
  from * show "py_index lines' (l - 1) = py_index lines (l - 1)" ..
  from * show "lines' ! nat (l - 1) = lines ! nat (l - 1)" ..
qed

theorem descending_order_witness:
  "map line (sorted_errors [\<lparr>line = 1, message = unused_msg ''x''\<rparr>, \<lparr>line = 2, message = unused_msg ''y''\<rparr>])
     = [2, 1] \<and>
   map line (sorted_errors [\<lparr>line = 2, message = unused_msg ''y''\<rparr>, \<lparr>line = 1, message = unused_msg ''x''\<rparr>])
     = [2, 1] \<and>
   process_errors (\<lambda>_. None) ([''const x = 1;'', ''const y = 2;''], 0) [\<lparr>line = 2, message = unused_msg ''y''\<rparr>]
     = Inr ([''const x = 1;'', ''const _y = 2;''], 1) \<and>
   [''const x = 1;'', ''const _y = 2;''] ! nat (1 - 1) = [''const x = 1;'', ''const y = 2;''] ! nat (1 - 1)"
proof -
  let ?m1 = "\<lparr>line = 1, message = unused_msg ''x''\<rparr>"
  let ?m2 = "\<lparr>line = 2, message = unused_msg ''y''\<rparr>"
  let ?ls = "[''const x = 1;'', ''const y = 2;'']"
  let ?ls' = "[''const x = 1;'', ''const _y = 2;'']"
  note th = descending_order [of "[?m1, ?m2]"]
  have s1: "map line (sorted_errors [?m1, ?m2]) = [2, 1]" by code_simp
  have perm: "mset [?m2, ?m1] = mset [?m1, ?m2]" by simp
  from th perm have "map line (sorted_errors [?m2, ?m1]) = map line (sorted_errors [?m1, ?m2])"
    by blast
  with s1 have s2: "map line (sorted_errors [?m2, ?m1]) = [2, 1]" by simp
  have p: "process_errors (\<lambda>_. None) (?ls, 0) [?m2] = Inr (?ls', 1)" by code_simp
  have hi: "\<forall>e \<in> set [?m2]. 1 < line e" by simp
  from th p hi have "?ls' ! nat (1 - 1) = ?ls ! nat (1 - 1)"
    by blast
  with s1 s2 p show ?thesis by blast
qed

theorem descending_order_counterexample:
  "sorted_errors [\<lparr>line = 0, message = unused_msg ''x''\<rparr>, \<lparr>line = 1, message = unused_msg ''x''\<rparr>]
     = [\<lparr>line = 1, message = unused_msg ''x''\<rparr>, \<lparr>line = 0, message = unused_msg ''x''\<rparr>] \<and>
   process_error (\<lambda>_. None) ([''const x = 1;''], 0) \<lparr>line = 0, message = unused_msg ''x''\<rparr>
     = Inr ([''const _x = 1;''], 1) \<and>
   process_error (\<lambda>_. None) ([''const x = 1;''], 0) \<lparr>line = 1, message = unused_msg ''x''\<rparr>
     = Inr ([''const _x = 1;''], 1) \<and>
   process_error (\<lambda>_. None) ([''const _x = 1;''], 1) \<lparr>line = 0, message = unused_msg ''x''\<rparr>
     = Inr ([''const _x = 1;''], 1) \<and>
   map line (sorted_errors [\<lparr>line = 1, message = unused_msg ''x''\<rparr>, \<lparr>line = 1, message = unused_msg ''y''\<rparr>])
     = [1, 1]"
  by code_simp

subsection \<open>The counter\<close>











subsection \<open>A file that cannot be read or written\<close>











section \<open>The rewrites on the words of a line\<close>

subsection \<open>Splitting a line into words\<close>

lemma unlex_simps [simp]:
  "unlex [] = []"
  "unlex (W w # ts) = w @ unlex ts"
  "unlex (G c # ts) = c # unlex ts"
  by (simp_all add: unlex_def)

lemma unlex_append [simp]: "unlex (ts @ us) = unlex ts @ unlex us"
  by (simp add: unlex_def)

lemma unlex_lex: "unlex (lex s) = s"
  by (induction s) (auto split: list.splits token.splits)

lemma wf_lex: "wf_tokens (lex s)"
proof (induction s)
  case Nil
  show ?case by simp
next
  case (Cons c cs)
  then show ?case
    by (cases "lex cs" rule: wf_tokens.cases) (auto split: list.splits)
qed

lemma lex_word_append:
  assumes "list_all is_word w" and "w \<noteq> []" and "case ts of [] \<Rightarrow> True | t # _ \<Rightarrow> \<not> is_W t"
    and "lex (unlex ts) = ts"
  shows "lex (w @ unlex ts) = W w # ts"
  using assms(1,2)
proof (induction w)
  case Nil
  then show ?case by simp
next
  case (Cons c w)
  show ?case
  proof (cases "w = []")
    case True
    with Cons.prems assms(3,4) show ?thesis
      by (cases ts rule: wf_tokens.cases) auto
  next
    case False
    with Cons have "lex (w @ unlex ts) = W w # ts" by simp
    with Cons.prems show ?thesis by simp
  qed
qed

lemma lex_unlex: "wf_tokens ts \<Longrightarrow> lex (unlex ts) = ts"
proof (induction ts rule: wf_tokens.induct)
  case 1
  show ?case by simp
next
  case (2 c ts)
  then show ?case by simp
next
  case (3 w ts)
  then show ?case by (simp add: lex_word_append)
qed

subsection \<open>Steps of re.sub\<close>

lemma sub_from_skip:
  "ends r p (c # cs) = [] \<Longrightarrow> sub_from r f False p (c # cs) = c # sub_from r f False (Some c) cs"
  by simp

lemma sub_from_hit:
  assumes "ends r p s = k # ks" and "0 < k" and "k \<le> length s"
  shows "sub_from r f False p s = f (take k s) @ sub_from r f False (Some (s ! (k - 1))) (drop k s)"
proof (cases s)
  case Nil
  with assms show ?thesis by simp
next
  case (Cons c cs)
  with assms show ?thesis
    by (simp add: prev_char_def drop_Cons')
qed

subsection \<open>The whole-word pattern\<close>

lemma ends_word_re:
  assumes "v \<noteq> []"
  shows "ends (word_re v) p s =
    (if at_boundary p s \<and> startswith s v \<and> at_boundary (Some (last v)) (drop (length v) s)
     then [length v] else [])"
proof -
  have "s ! (length v - 1) = last v" if "startswith s v"
  proof -
    from that have "take (length v) s = v" by (simp add: startswith_def)
    then have "s ! (length v - 1) = v ! (length v - 1)"
      using assms by (metis diff_less length_greater_0_conv less_numeral_extra(1) nth_take)
    then show ?thesis using assms by (simp add: last_conv_nth)
  qed
  then show ?thesis
    using assms by (auto simp: word_re_def prev_char_def)
qed

lemma is_word_underscore: "is_word (CHR ''_'')"
  by (simp add: is_word_def)

lemma at_boundary_word_word: "is_word c \<Longrightarrow> is_word a \<Longrightarrow> \<not> at_boundary (Some c) (a # s)"
  by (simp add: at_boundary_def)

lemma sub_word_inside:
  assumes "v \<noteq> []"
  shows "is_word c \<Longrightarrow> list_all is_word u \<Longrightarrow>
    sub_from (word_re v) f False (Some c) (u @ rest) =
      u @ sub_from (word_re v) f False (Some (last (c # u))) rest"
proof (induction u arbitrary: c)
  case Nil
  show ?case by simp
next
  case (Cons a u)
  then have "ends (word_re v) (Some c) (a # u @ rest) = []"
    by (simp add: ends_word_re [OF assms] at_boundary_word_word)
  then have "sub_from (word_re v) f False (Some c) ((a # u) @ rest) =
      a # sub_from (word_re v) f False (Some a) (u @ rest)"
    by simp
  with Cons show ?case by simp
qed

lemma startswith_nonword:
  assumes "word_name v" and "\<not> is_word c"
  shows "\<not> startswith (c # s) v"
  using assms by (cases v) (auto simp: word_name_def startswith_def)

lemma word_match_iff:
  assumes "word_name v" and "word_name w"
    and "rest = [] \<or> \<not> is_word (hd rest)"
  shows "startswith (w @ rest) v \<and> at_boundary (Some (last v)) (drop (length v) (w @ rest)) \<longleftrightarrow> v = w"
proof
  assume "v = w"
  moreover have "is_word (last w)"
    using assms(2) by (simp add: word_name_def list_all_iff)
  ultimately show "startswith (w @ rest) v \<and> at_boundary (Some (last v)) (drop (length v) (w @ rest))"
    using assms(3) by (cases rest) (auto simp: startswith_def at_boundary_def)
next
  assume a: "startswith (w @ rest) v \<and> at_boundary (Some (last v)) (drop (length v) (w @ rest))"
  then have t: "take (length v) (w @ rest) = v" by (simp add: startswith_def)
  have lv: "is_word (last v)" and allv: "\<forall>c \<in> set v. is_word c"
    using assms(1) by (simp_all add: word_name_def list_all_iff)
  have allw: "\<forall>c \<in> set w. is_word c"
    using assms(2) by (simp add: word_name_def list_all_iff)
  consider "length v < length w" | "length v = length w" | "length w < length v"
    by linarith
  then show "v = w"
  proof cases
    case 1
    then have "drop (length v) (w @ rest) = w ! length v # drop (Suc (length v)) w @ rest"
      by (simp add: Cons_nth_drop_Suc)
    moreover have "is_word (w ! length v)"
      using 1 allw by simp
    ultimately have "\<not> at_boundary (Some (last v)) (drop (length v) (w @ rest))"
      using lv by (simp add: at_boundary_def)
    with a show ?thesis by simp
  next
    case 2
    with t show ?thesis by simp
  next
    case 3
    from t have "length (take (length v) (w @ rest)) = length v" by simp
    then have "length v \<le> length (w @ rest)" by simp
    with 3 have ne: "rest \<noteq> []" by auto
    have "v ! length w = (w @ rest) ! length w"
      using t 3 by (metis nth_take)
    also have "\<dots> = hd rest"
      using ne by (simp add: nth_append hd_conv_nth)
    finally have "hd rest \<in> set v"
      using 3 by (metis nth_mem)
    with allv assms(3) ne show ?thesis by auto
  qed
qed

lemma unlex_starts_nonword:
  assumes "wf_tokens ts" and "case ts of [] \<Rightarrow> True | t # _ \<Rightarrow> \<not> is_W t"
  shows "unlex ts = [] \<or> \<not> is_word (hd (unlex ts))"
  using assms by (cases ts rule: wf_tokens.cases) auto

lemma sub_word_tokens:
  assumes v: "word_name v"
  shows "wf_tokens ts \<Longrightarrow>
    (case ts of W w # _ \<Rightarrow> \<not> (case p of None \<Rightarrow> False | Some c \<Rightarrow> is_word c) | _ \<Rightarrow> True) \<Longrightarrow>
    sub_from (word_re v) (\<lambda>_. CHR ''_'' # v) False p (unlex ts) = unlex (rename_words v ts)"
proof (induction ts arbitrary: p rule: wf_tokens.induct)
  case 1
  from v have "v \<noteq> []" by (simp add: word_name_def)
  then show ?case
    by (simp add: ends_word_re rename_words_def startswith_def)
next
  case (2 c ts)
  from v have ne: "v \<noteq> []" by (simp add: word_name_def)
  from 2 have "\<not> is_word c" by simp
  then have "ends (word_re v) p (c # unlex ts) = []"
    using startswith_nonword [OF v] by (simp add: ends_word_re [OF ne])
  then have "sub_from (word_re v) (\<lambda>_. CHR ''_'' # v) False p (unlex (G c # ts)) =
      c # sub_from (word_re v) (\<lambda>_. CHR ''_'' # v) False (Some c) (unlex ts)"
    by simp
  moreover have "sub_from (word_re v) (\<lambda>_. CHR ''_'' # v) False (Some c) (unlex ts) =
      unlex (rename_words v ts)"
    using 2 by (auto split: list.splits token.splits)
  ultimately show ?case by (simp add: rename_words_def)
next
  case (3 w ts)
  from v have ne: "v \<noteq> []" by (simp add: word_name_def)
  from 3 have w: "word_name w" and wf: "wf_tokens ts"
    and nw: "case ts of [] \<Rightarrow> True | t # _ \<Rightarrow> \<not> is_W t"
    and p: "\<not> (case p of None \<Rightarrow> False | Some c \<Rightarrow> is_word c)"
    by (simp_all add: word_name_def)
  from w obtain c cs where wc: "w = c # cs" and c: "is_word c" and cs: "list_all is_word cs"
    by (cases w) (auto simp: word_name_def)
  have rest: "unlex ts = [] \<or> \<not> is_word (hd (unlex ts))"
    using wf nw by (rule unlex_starts_nonword)
  have bp: "at_boundary p (w @ unlex ts)"
    using p c wc by (simp add: at_boundary_def)
  have ih: "sub_from (word_re v) (\<lambda>_. CHR ''_'' # v) False q (unlex ts) = unlex (rename_words v ts)" for q
    using "3.IH" wf nw by (cases ts rule: wf_tokens.cases) auto
  show ?case
  proof (cases "v = w")
    case True
    from wc have "w \<noteq> []" by simp
    then have "ends (word_re v) p (w @ unlex ts) = [length w]"
      using True word_match_iff [OF v w rest] bp by (simp add: ends_word_re)
    then have "sub_from (word_re v) (\<lambda>_. CHR ''_'' # v) False p (w @ unlex ts) =
        (CHR ''_'' # v) @
        sub_from (word_re v) (\<lambda>_. CHR ''_'' # v) False (Some ((w @ unlex ts) ! (length w - 1)))
          (drop (length w) (w @ unlex ts))"
      using wc by (subst sub_from_hit [where k = "length w" and ks = "[]"]) auto
    then show ?thesis
      using True by (simp add: ih [unfolded True rename_words_def] rename_words_def)
  next
    case False
    then have "ends (word_re v) p (w @ unlex ts) = []"
      using word_match_iff [OF v w rest] by (auto simp: ends_word_re [OF ne])
    then have "sub_from (word_re v) (\<lambda>_. CHR ''_'' # v) False p (w @ unlex ts) =
        c # sub_from (word_re v) (\<lambda>_. CHR ''_'' # v) False (Some c) (cs @ unlex ts)"
      using wc by simp
    also have "\<dots> = c # cs @ sub_from (word_re v) (\<lambda>_. CHR ''_'' # v) False (Some (last (c # cs))) (unlex ts)"
      using sub_word_inside [OF ne c cs] by simp
    finally show ?thesis
      using False wc by (simp add: ih rename_words_def)
  qed
qed

subsection \<open>Facts about the matcher\<close>

lemma startswith_length: "startswith s w \<Longrightarrow> length w \<le> length s"
proof -
  assume "startswith s w"
  then have "length (take (length w) s) = length w"
    by (simp add: startswith_def)
  then show ?thesis by simp
qed

lemma takeWhile_space_in_class [simp]: "takeWhile (in_class Space) s = takeWhile is_space s"
  by (rule takeWhile_cong) auto

lemma ends_le: "k \<in> set (ends r p s) \<Longrightarrow> k \<le> length s"
proof (induction r arbitrary: k p s)
  case (Lit w)
  then show ?case
    by (auto dest: startswith_length split: if_splits)
next
  case (Star c)
  have "length (takeWhile (in_class c) s) \<le> length s"
    by (rule length_takeWhile_le)
  with Star show ?case by auto
next
  case (Plus c)
  have "length (takeWhile (in_class c) s) \<le> length s"
    by (rule length_takeWhile_le)
  with Plus show ?case by auto
next
  case Bnd
  then show ?case by (auto split: if_splits)
next
  case (Opt r)
  then show ?case by auto
next
  case (Alt r1 r2)
  then show ?case by auto
next
  case (Seq r1 r2)
  from Seq.prems obtain k1 k2 where
    k1: "k1 \<in> set (ends r1 p s)"
    and k2: "k2 \<in> set (ends r2 (prev_char p s k1) (drop k1 s))"
    and k: "k = k1 + k2"
    by auto
  from Seq.IH(1) [OF k1] Seq.IH(2) [OF k2] k show ?case by simp
qed

lemma ends_paren_Lit: "ends_paren (Lit '')'')"
  by (auto simp: ends_paren_def startswith_def split: if_splits)
    (metis One_nat_def diff_Suc_1 length_Cons lessI list.size(3) nth_Cons_0 nth_take)

lemma ends_paren_Seq:
  assumes "ends_paren r2"
  shows "ends_paren (Seq r1 r2)"
  unfolding ends_paren_def
proof (intro allI impI)
  fix p s k
  assume "k \<in> set (ends (Seq r1 r2) p s)"
  then obtain k1 k2 where
    k1: "k1 \<in> set (ends r1 p s)"
    and k2: "k2 \<in> set (ends r2 (prev_char p s k1) (drop k1 s))"
    and k: "k = k1 + k2"
    by auto
  from assms k2 have pos: "0 < k2" and last: "drop k1 s ! (k2 - 1) = CHR '')''"
    by (auto simp: ends_paren_def)
  from ends_le [OF k2] pos have "k1 + (k2 - 1) < length s" by simp
  then have "s ! (k1 + (k2 - 1)) = CHR '')''"
    using last by simp
  moreover have "k1 + (k2 - 1) = k - 1"
    using pos k by simp
  ultimately show "0 < k \<and> s ! (k - 1) = CHR '')''"
    using pos k by simp
qed

lemma ends_paren_catch_re: "ends_paren (catch_re v)"
  by (simp add: catch_re_def ends_paren_Seq ends_paren_Lit)

subsection \<open>Character facts\<close>

lemma space_not_word: "is_space c \<Longrightarrow> \<not> is_word c"
  by (auto simp: is_space_def is_word_def Let_def)

lemma paren_chars [simp]:
  "\<not> is_word (CHR ''('')" "\<not> is_word (CHR '')'')" "\<not> is_word (CHR '' '')"
  "\<not> is_space (CHR ''('')" "\<not> is_space (CHR '')'')" "is_space (CHR '' '')"
  by (simp_all add: is_word_def is_space_def)

lemma word_name_catch [simp]: "word_name ''catch''"
  by (simp add: word_name_def is_word_def)

lemma word_name_hd: "word_name v \<Longrightarrow> is_word (hd v)"
  by (cases v) (auto simp: word_name_def)

subsection \<open>The layers of the catch pattern\<close>

lemma rests_Lit_Seq:
  "rests (Seq (Lit w) r) p s =
     (if startswith s w then rests r (prev_char p s (length w)) (drop (length w) s) else [])"
  by (simp add: rests_def comp_def add.commute)

lemma concat_all_empty: "(\<And>x. x \<in> set xs \<Longrightarrow> g x = []) \<Longrightarrow> concat (map g xs) = []"
  by (induction xs) auto

lemma rests_Star_Seq:
  assumes "\<And>q c t. is_space c \<Longrightarrow> ends r q (c # t) = []"
  shows "rests (Seq (Star Space) r) p s =
     rests r (prev_char p s (length (takeWhile is_space s))) (dropWhile is_space s)"
proof -
  let ?n = "length (takeWhile is_space s)"
  let ?g = "\<lambda>k. map ((+) k) (ends r (prev_char p s k) (drop k s))"
  have "?g k = []" if "k \<in> set (rev [0 ..< ?n])" for k
  proof -
    from that have k: "k < ?n" by simp
    then have "k < length s"
      using length_takeWhile_le [of is_space s] by simp
    then have d: "drop k s = s ! k # drop (Suc k) s"
      by (simp add: Cons_nth_drop_Suc)
    have "is_space (s ! k)"
      using k by (metis nth_mem set_takeWhileD takeWhile_nth)
    with d show ?thesis by (simp add: assms)
  qed
  then have "concat (map ?g (rev [0 ..< ?n])) = []"
    by (rule concat_all_empty)
  then have "ends (Seq (Star Space) r) p s = ?g ?n"
    by simp
  then show ?thesis
    by (simp add: rests_def comp_def dropWhile_eq_drop add.commute)
qed

lemma rests_Bnd_Seq: "rests (Seq Bnd r) p s = (if at_boundary p s then rests r p s else [])"
  by (simp add: rests_def prev_char_def)

lemma rests_Lit: "rests (Lit w) p s = (if startswith s w then [drop (length w) s] else [])"
  by (simp add: rests_def)

lemma wf_tokens_tl: "wf_tokens (t # ts) \<Longrightarrow> wf_tokens ts"
  by (cases t) auto

lemma wf_tokens_dropWhile: "wf_tokens ts \<Longrightarrow> wf_tokens (dropWhile P ts)"
  by (induction ts) (auto dest: wf_tokens_tl)

lemma skip_unlex:
  "wf_tokens ts \<Longrightarrow> dropWhile is_space (unlex ts) = unlex (dropWhile space_token ts)"
proof (induction ts rule: wf_tokens.induct)
  case 1
  show ?case by simp
next
  case (2 c ts)
  then show ?case by simp
next
  case (3 w ts)
  then obtain c cs where "w = c # cs" "is_word c"
    by (cases w) auto
  then show ?case by (auto dest: space_not_word)
qed

lemma catch_re_layers: "catch_re v = Seq Bnd (Seq (Lit ''catch'') (open_re v))"
  by (simp add: catch_re_def open_re_def name_re_def close_re_def)

lemma startswith_Cons: "startswith (c # s) (d # w) = (c = d \<and> startswith s w)"
  by (simp add: startswith_def)

lemma startswith_Nil [simp]: "startswith s []"
  by (simp add: startswith_def)

lemma close_re_space: "is_space c \<Longrightarrow> ends (Lit '')'') q (c # t) = []"
  by (auto simp: startswith_Cons)

lemma open_re_space: "is_space c \<Longrightarrow> ends (Seq (Lit ''('') r) q (c # t) = []"
  by (auto simp: startswith_Cons)

lemma rests_close_tokens:
  assumes "wf_tokens ts"
  shows "rests close_re q (unlex ts) = (case close_paren ts of Some rest \<Rightarrow> [unlex rest] | None \<Rightarrow> [])"
proof -
  define ts1 where "ts1 = dropWhile space_token ts"
  have cp: "close_paren ts =
      (case ts1 of G d # rest \<Rightarrow> if d = CHR '')'' then Some rest else None | _ \<Rightarrow> None)"
    by (simp add: close_paren_def ts1_def)
  have "rests close_re q (unlex ts) =
      rests (Lit '')'') (prev_char q (unlex ts) (length (takeWhile is_space (unlex ts)))) (unlex ts1)"
    unfolding close_re_def ts1_def
    by (subst rests_Star_Seq) (simp_all only: close_re_space skip_unlex [OF assms])
  moreover have "wf_tokens ts1"
    unfolding ts1_def using assms by (rule wf_tokens_dropWhile)
  ultimately show ?thesis
    unfolding cp
    by (cases ts1 rule: wf_tokens.cases)
      (auto simp: rests_Lit startswith_def neq_Nil_conv list_all_iff)
qed

lemma rests_close_word: "is_word a \<Longrightarrow> rests close_re q (a # t) = []"
proof -
  assume a: "is_word a"
  then have "\<not> is_space a" by (auto dest: space_not_word)
  moreover have "a \<noteq> CHR '')''" using a by auto
  ultimately show ?thesis
    unfolding close_re_def
    by (subst rests_Star_Seq) (simp_all add: close_re_space startswith_Cons rests_Lit del: ends.simps)
qed

lemma word_prefix_next:
  assumes "word_name v" and "word_name w" and "rest = [] \<or> \<not> is_word (hd rest)"
    and "startswith (w @ rest) v" and "v \<noteq> w"
  shows "\<exists>a t. drop (length v) (w @ rest) = a # t \<and> is_word a"
proof -
  have "\<not> at_boundary (Some (last v)) (drop (length v) (w @ rest))"
    using word_match_iff [OF assms(1-3)] assms(4,5) by blast
  moreover have "is_word (last v)"
    using assms(1) by (simp add: word_name_def list_all_iff)
  ultimately show ?thesis
    by (cases "drop (length v) (w @ rest)") (auto simp: at_boundary_def)
qed

lemma rests_name_tokens:
  assumes v: "word_name v" and wf: "wf_tokens ts"
  shows "rests (name_re v) q (unlex ts) = (case name_then v ts of Some rest \<Rightarrow> [unlex rest] | None \<Rightarrow> [])"
proof -
  define ts1 where "ts1 = dropWhile space_token ts"
  have nt: "name_then v ts =
      (case ts1 of W w # ts' \<Rightarrow> if w = v then close_paren ts' else None | _ \<Rightarrow> None)"
    by (simp add: name_then_def ts1_def)
  have s: "\<And>q c t. is_space c \<Longrightarrow> ends (Seq (Lit v) close_re) q (c # t) = []"
    using startswith_nonword [OF v] by (auto dest: space_not_word)
  have wf': "wf_tokens ts1"
    unfolding ts1_def using wf by (rule wf_tokens_dropWhile)
  have "rests (name_re v) q (unlex ts) =
      rests (Seq (Lit v) close_re) (prev_char q (unlex ts) (length (takeWhile is_space (unlex ts)))) (unlex ts1)"
    unfolding name_re_def ts1_def using s
    by (subst rests_Star_Seq) (simp_all only: skip_unlex [OF wf])
  also have "\<dots> = (case name_then v ts of Some rest \<Rightarrow> [unlex rest] | None \<Rightarrow> [])"
  proof (cases ts1 rule: wf_tokens.cases)
    case 1
    with v show ?thesis
      by (auto simp: nt rests_Lit_Seq startswith_def word_name_def)
  next
    case (2 c ts')
    with wf' have "\<not> is_word c" by simp
    with 2 show ?thesis
      using startswith_nonword [OF v] by (simp add: nt rests_Lit_Seq)
  next
    case (3 w ts')
    with wf' have w: "word_name w" and wf'': "wf_tokens ts'"
      and nw: "case ts' of [] \<Rightarrow> True | t # _ \<Rightarrow> \<not> is_W t"
      by (simp_all add: word_name_def)
    have rest: "unlex ts' = [] \<or> \<not> is_word (hd (unlex ts'))"
      using wf'' nw by (rule unlex_starts_nonword)
    show ?thesis
    proof (cases "w = v")
      case True
      with 3 show ?thesis
        by (simp add: nt rests_Lit_Seq rests_close_tokens [OF wf''] startswith_def)
    next
      case False
      have "rests (Seq (Lit v) close_re) p (w @ unlex ts') = []" for p
      proof (cases "startswith (w @ unlex ts') v")
        case True
        with word_prefix_next [OF v w rest] False obtain a t where
          "drop (length v) (w @ unlex ts') = a # t" "is_word a"
          by blast
        then show ?thesis
          using True by (simp add: rests_Lit_Seq rests_close_word)
      next
        case False
        then show ?thesis by (simp add: rests_Lit_Seq)
      qed
      with 3 False show ?thesis
        by (simp add: nt)
    qed
  qed
  finally show ?thesis .
qed

lemma rests_open_tokens:
  assumes v: "word_name v" and wf: "wf_tokens ts"
  shows "rests (open_re v) q (unlex ts) = (case catch_clause v ts of Some rest \<Rightarrow> [unlex rest] | None \<Rightarrow> [])"
proof -
  define ts1 where "ts1 = dropWhile space_token ts"
  have cc: "catch_clause v ts =
      (case ts1 of G c # ts' \<Rightarrow> if c = CHR ''('' then name_then v ts' else None | _ \<Rightarrow> None)"
    by (simp add: catch_clause_def ts1_def)
  have wf': "wf_tokens ts1"
    unfolding ts1_def using wf by (rule wf_tokens_dropWhile)
  have "rests (open_re v) q (unlex ts) =
      rests (Seq (Lit ''('') (name_re v)) (prev_char q (unlex ts) (length (takeWhile is_space (unlex ts)))) (unlex ts1)"
    unfolding open_re_def ts1_def
    by (subst rests_Star_Seq) (simp_all only: open_re_space skip_unlex [OF wf])
  also have "\<dots> = (case catch_clause v ts of Some rest \<Rightarrow> [unlex rest] | None \<Rightarrow> [])"
  proof (cases ts1 rule: wf_tokens.cases)
    case 1
    then show ?thesis
      by (simp add: cc rests_Lit_Seq startswith_def)
  next
    case (2 c ts')
    with wf' have "wf_tokens ts'" by simp
    with 2 show ?thesis
      by (simp add: cc rests_Lit_Seq startswith_Cons rests_name_tokens [OF v])
  next
    case (3 w ts')
    with wf' obtain c cs where "w = c # cs" "is_word c"
      by (cases w) auto
    with 3 show ?thesis
      by (auto simp: cc rests_Lit_Seq startswith_Cons)
  qed
  finally show ?thesis .
qed

lemma rests_open_word: "is_word a \<Longrightarrow> rests (open_re v) q (a # t) = []"
proof -
  assume a: "is_word a"
  then have "\<not> is_space a" by (auto dest: space_not_word)
  moreover have "a \<noteq> CHR ''(''" using a by auto
  ultimately show ?thesis
    unfolding open_re_def
    by (subst rests_Star_Seq) (simp_all add: open_re_space startswith_Cons rests_Lit_Seq del: ends.simps)
qed

lemma sub_from_inside:
  assumes "\<And>c a s. is_word c \<Longrightarrow> is_word a \<Longrightarrow> ends r (Some c) (a # s) = []"
  shows "is_word c \<Longrightarrow> list_all is_word u \<Longrightarrow>
    sub_from r f False (Some c) (u @ rest) = u @ sub_from r f False (Some (last (c # u))) rest"
proof (induction u arbitrary: c)
  case Nil
  show ?case by simp
next
  case (Cons a u)
  then have "ends r (Some c) (a # u @ rest) = []"
    by (simp add: assms)
  then have "sub_from r f False (Some c) ((a # u) @ rest) = a # sub_from r f False (Some a) (u @ rest)"
    by simp
  with Cons show ?case by simp
qed

lemma sub_from_word:
  assumes "\<And>c a s. is_word c \<Longrightarrow> is_word a \<Longrightarrow> ends r (Some c) (a # s) = []"
    and "word_name w" and "ends r p (w @ rest) = []"
  shows "sub_from r f False p (w @ rest) = w @ sub_from r f False (Some (last w)) rest"
proof -
  from assms(2) obtain c cs where wc: "w = c # cs" and c: "is_word c" and cs: "list_all is_word cs"
    by (cases w) (auto simp: word_name_def)
  from assms(3) have "sub_from r f False p (w @ rest) = c # sub_from r f False (Some c) (cs @ rest)"
    using wc by simp
  also have "\<dots> = c # cs @ sub_from r f False (Some (last (c # cs))) rest"
    using sub_from_inside [OF assms(1) c cs] by simp
  finally show ?thesis using wc by simp
qed

lemma rests_empty_iff: "rests r p s = [] \<longleftrightarrow> ends r p s = []"
  by (simp add: rests_def)

lemma ends_catch_inside: "is_word c \<Longrightarrow> is_word a \<Longrightarrow> ends (catch_re v) (Some c) (a # s) = []"
  by (simp add: rests_empty_iff [symmetric] catch_re_layers rests_Bnd_Seq at_boundary_word_word)

lemma ends_catch_nonword: "\<not> is_word c \<Longrightarrow> ends (catch_re v) p (c # s) = []"
  using startswith_nonword [OF word_name_catch, of c s]
  by (simp add: rests_empty_iff [symmetric] catch_re_layers rests_Bnd_Seq rests_Lit_Seq)

lemma ends_catch_nil: "ends (catch_re v) p [] = []"
  by (simp add: rests_empty_iff [symmetric] catch_re_layers rests_Bnd_Seq rests_Lit_Seq startswith_def)

lemma rests_catch_word:
  assumes v: "word_name v" and w: "word_name w" and wf: "wf_tokens ts"
    and nw: "case ts of [] \<Rightarrow> True | t # _ \<Rightarrow> \<not> is_W t"
  shows "rests (catch_re v) p (w @ unlex ts) =
    (if at_boundary p (w @ unlex ts) \<and> w = ''catch''
     then (case catch_clause v ts of Some rest \<Rightarrow> [unlex rest] | None \<Rightarrow> [])
     else [])"
proof (cases "w = ''catch''")
  case True
  then show ?thesis
    by (simp add: catch_re_layers rests_Bnd_Seq rests_Lit_Seq startswith_def
        rests_open_tokens [OF v wf])
next
  case False
  have rest: "unlex ts = [] \<or> \<not> is_word (hd (unlex ts))"
    using wf nw by (rule unlex_starts_nonword)
  have "rests (Seq (Lit ''catch'') (open_re v)) p (w @ unlex ts) = []"
  proof (cases "startswith (w @ unlex ts) ''catch''")
    case True
    with word_prefix_next [OF word_name_catch w rest] False obtain a t where
      "drop (length ''catch'') (w @ unlex ts) = a # t" "is_word a"
      by blast
    then show ?thesis
      using True by (simp add: rests_Lit_Seq rests_open_word)
  next
    case False
    then show ?thesis by (simp add: rests_Lit_Seq)
  qed
  with False show ?thesis
    by (simp add: catch_re_layers rests_Bnd_Seq)
qed

lemma close_paren_wf: "close_paren ts = Some rest \<Longrightarrow> wf_tokens ts \<Longrightarrow> wf_tokens rest"
  using wf_tokens_dropWhile [of ts space_token]
  by (auto simp: close_paren_def split: list.splits token.splits if_splits)

lemma name_then_wf: "name_then v ts = Some rest \<Longrightarrow> wf_tokens ts \<Longrightarrow> wf_tokens rest"
  using wf_tokens_dropWhile [of ts space_token]
  by (auto simp: name_then_def split: list.splits token.splits if_splits dest: close_paren_wf)

lemma catch_clause_wf: "catch_clause v ts = Some rest \<Longrightarrow> wf_tokens ts \<Longrightarrow> wf_tokens rest"
  using wf_tokens_dropWhile [of ts space_token]
  by (auto simp: catch_clause_def split: list.splits token.splits if_splits dest: name_then_wf)

lemma sub_catch_tokens:
  "word_name v \<Longrightarrow> wf_tokens ts \<Longrightarrow>
    (case ts of W w # _ \<Rightarrow> \<not> (case p of None \<Rightarrow> False | Some c \<Rightarrow> is_word c) | _ \<Rightarrow> True) \<Longrightarrow>
    sub_from (catch_re v) (\<lambda>_. catch_repl v) False p (unlex ts) = unlex (rename_catch v ts)"
proof (induction v ts arbitrary: p rule: rename_catch.induct)
  case (1 v)
  show ?case by (simp add: ends_catch_nil del: ends.simps)
next
  case (2 v t ts)
  note v = \<open>word_name v\<close>
  note prems = "2.prems"(2,3)
  show ?case
  proof (cases t)
    case (G c)
    with prems have c: "\<not> is_word c" and wf: "wf_tokens ts" by simp_all
    have "sub_from (catch_re v) (\<lambda>_. catch_repl v) False p (unlex (t # ts)) =
        c # sub_from (catch_re v) (\<lambda>_. catch_repl v) False (Some c) (unlex ts)"
      using G ends_catch_nonword [OF c] by (simp del: ends.simps)
    moreover have "sub_from (catch_re v) (\<lambda>_. catch_repl v) False (Some c) (unlex ts) =
        unlex (rename_catch v ts)"
      using "2.IH"(3) [OF _ v wf] G c by (auto split: list.splits token.splits)
    ultimately show ?thesis using G by simp
  next
    case (W w)
    with prems have w: "word_name w" and wf: "wf_tokens ts"
      and nw: "case ts of [] \<Rightarrow> True | t # _ \<Rightarrow> \<not> is_W t"
      and p: "\<not> (case p of None \<Rightarrow> False | Some c \<Rightarrow> is_word c)"
      by (simp_all add: word_name_def)
    have bp: "at_boundary p (w @ unlex ts)"
      using p word_name_hd [OF w] w by (cases w) (auto simp: at_boundary_def word_name_def)
    note rs = rests_catch_word [OF v w wf nw, of p]
    have ctx: "(case ts of W w # _ \<Rightarrow> \<not> (case q of None \<Rightarrow> False | Some c \<Rightarrow> is_word c) | _ \<Rightarrow> True)" for q
      using nw by (auto split: list.splits token.splits)
    show ?thesis
    proof (cases "w = ''catch'' \<and> catch_clause v ts \<noteq> None")
      case True
      then obtain rest where cc: "catch_clause v ts = Some rest" and wc: "w = ''catch''"
        by auto
      from rs bp cc wc have "rests (catch_re v) p (w @ unlex ts) = [unlex rest]" by simp
      then obtain k where k: "ends (catch_re v) p (w @ unlex ts) = [k]"
        and d: "drop k (w @ unlex ts) = unlex rest"
        by (auto simp: rests_def)
      from k have kin: "k \<in> set (ends (catch_re v) p (w @ unlex ts))" by simp
      from ends_paren_catch_re kin have pos: "0 < k" and lst: "(w @ unlex ts) ! (k - 1) = CHR '')''"
        by (auto simp: ends_paren_def)
      from ends_le [OF kin] have le: "k \<le> length (w @ unlex ts)" .
      have "sub_from (catch_re v) (\<lambda>_. catch_repl v) False p (w @ unlex ts) =
          catch_repl v @ sub_from (catch_re v) (\<lambda>_. catch_repl v) False (Some (CHR '')'')) (unlex rest)"
        using sub_from_hit [OF k pos le, of "\<lambda>_. catch_repl v"] lst d by simp
      moreover have "sub_from (catch_re v) (\<lambda>_. catch_repl v) False (Some (CHR '')'')) (unlex rest) =
          unlex (rename_catch v rest)"
        using "2.IH"(2) [OF _ cc v catch_clause_wf [OF cc wf]] W wc
        by (auto split: list.splits token.splits)
      ultimately show ?thesis
        using W wc cc by (simp add: catch_repl_def)
    next
      case False
      with rs have e: "ends (catch_re v) p (w @ unlex ts) = []"
        by (auto simp: rests_empty_iff [symmetric])
      have "sub_from (catch_re v) (\<lambda>_. catch_repl v) False p (w @ unlex ts) =
          w @ sub_from (catch_re v) (\<lambda>_. catch_repl v) False (Some (last w)) (unlex ts)"
        using ends_catch_inside w e by (rule sub_from_word)
      moreover have "sub_from (catch_re v) (\<lambda>_. catch_repl v) False (Some (last w)) (unlex ts) =
          unlex (rename_catch v ts)"
      proof (cases "t = W ''catch''")
        case True
        with False W have "catch_clause v ts = None" by simp
        from "2.IH"(1) [OF True this v wf ctx] show ?thesis .
      next
        case False
        from "2.IH"(3) [OF False v wf ctx] show ?thesis .
      qed
      ultimately show ?thesis
        using W False by auto
    qed
  qed
qed

subsection \<open>The text catch on a line\<close>

lemma startswith_append_sep:
  assumes "c \<notin> set w"
  shows "startswith (u @ c # r) w = startswith u w"
proof (cases "length w \<le> length u")
  case True
  then show ?thesis by (simp add: startswith_def)
next
  case False
  then have "take (length w) (u @ c # r) = u @ c # take (length w - length u - 1) r"
    by (simp add: take_Cons')
  then have "c \<in> set (take (length w) (u @ c # r))" by simp
  with assms have "take (length w) (u @ c # r) \<noteq> w" by metis
  moreover have "take (length w) u \<noteq> w"
    using False by (auto dest!: arg_cong [where f = length])
  ultimately show ?thesis by (simp add: startswith_def)
qed

lemma py_in_append_sep:
  assumes "c \<notin> set w" and "w \<noteq> []"
  shows "py_in w (u @ c # r) = (py_in w u \<or> py_in w r)"
proof (induction u)
  case Nil
  have "\<not> startswith (c # r) w"
    using assms by (cases w) (auto simp: startswith_def)
  then show ?case using assms by simp
next
  case (Cons a u)
  have "startswith (a # u @ c # r) w = startswith (a # u) w"
    using startswith_append_sep [OF assms(1), of "a # u" r] by simp
  with Cons show ?case by auto
qed

lemma py_in_unlex:
  assumes w: "word_name w"
  shows "wf_tokens ts \<Longrightarrow>
    py_in w (unlex ts) = list_ex (\<lambda>t. case t of W u \<Rightarrow> py_in w u | G c \<Rightarrow> False) ts"
proof (induction ts rule: wf_tokens.induct)
  case 1
  from w show ?case by (simp add: word_name_def)
next
  case (2 c ts)
  then have "\<not> startswith (c # unlex ts) w"
    using startswith_nonword [OF w] by simp
  with 2 show ?case by simp
next
  case (3 u ts)
  show ?case
  proof (cases ts rule: wf_tokens.cases)
    case 1
    then show ?thesis by simp
  next
    case (2 c ts')
    with 3 have c: "\<not> is_word c" by simp
    have "c \<notin> set w"
      using c w by (auto simp: word_name_def list_all_iff)
    moreover have "w \<noteq> []" using w by (simp add: word_name_def)
    ultimately have "py_in w (u @ c # unlex ts') = (py_in w u \<or> py_in w (unlex ts'))"
      by (rule py_in_append_sep)
    moreover have "\<not> startswith (c # unlex ts') w"
      using startswith_nonword [OF w c] by simp
    ultimately show ?thesis
      using 3 2 by simp
  next
    case (3 u' ts')
    with "3.prems" show ?thesis by simp
  qed
qed

lemma has_catch_unlex: "wf_tokens ts \<Longrightarrow> py_in ''catch'' (unlex ts) = has_catch ts"
  by (simp add: has_catch_def py_in_unlex)

lemma has_catch_simps [simp]:
  "has_catch [] = False"
  "has_catch (G c # ts) = has_catch ts"
  "has_catch (W u # ts) = (py_in ''catch'' u \<or> has_catch ts)"
  by (simp_all add: has_catch_def)

lemma has_catch_append [simp]: "has_catch (ts @ us) = (has_catch ts \<or> has_catch us)"
  by (simp add: has_catch_def)

lemma py_in_catch_underscore: "py_in ''catch'' (CHR ''_'' # u) = py_in ''catch'' u"
  by (simp add: startswith_Cons)

lemma has_catch_rename_words: "has_catch (rename_words v ts) = has_catch ts"
proof (induction ts)
  case Nil
  show ?case by (simp add: rename_words_def)
next
  case (Cons t ts)
  then show ?case
    by (cases t) (auto simp: rename_words_def py_in_catch_underscore simp del: py_in.simps)
qed

lemma py_in_catch_catch: "py_in ''catch'' ''catch''"
  by (simp add: startswith_def)

lemma has_catch_rename_catch: "has_catch (rename_catch v ts) = has_catch ts"
proof (induction v ts rule: rename_catch.induct)
  case (1 v)
  show ?case by simp
next
  case (2 v t ts)
  show ?case
  proof (cases "t = W ''catch''")
    case True
    then show ?thesis
      using 2 by (cases "catch_clause v ts") (auto simp: py_in_catch_catch simp del: py_in.simps)
  next
    case False
    then show ?thesis
      using 2 by (cases t) (auto simp del: py_in.simps)
  qed
qed

lemma good_name_neq: "good_name v \<Longrightarrow> v \<noteq> CHR ''_'' # u"
  by (auto simp: good_name_def startswith_def)

subsection \<open>Renaming words\<close>

lemma rename_words_simps [simp]:
  "rename_words v [] = []"
  "rename_words v (G c # ts) = G c # rename_words v ts"
  "rename_words v (W w # ts) = W (if w = v then CHR ''_'' # v else w) # rename_words v ts"
  by (simp_all add: rename_words_def)

lemma rename_words_id: "W v \<notin> set ts \<Longrightarrow> rename_words v ts = ts"
  by (induction ts) (auto simp: rename_words_def)

lemma rename_words_set:
  "t \<in> set (rename_words v ts) \<Longrightarrow> t \<in> set ts \<or> t = W (CHR ''_'' # v)"
  by (auto simp: rename_words_def split: if_splits)

lemma rename_words_done: "W v \<notin> set (rename_words v ts)"
  by (auto simp: rename_words_def split: if_splits)

lemma wf_rename_words:
  assumes "word_name v"
  shows "wf_tokens ts \<Longrightarrow> wf_tokens (rename_words v ts)"
proof (induction ts rule: wf_tokens.induct)
  case 1
  show ?case by simp
next
  case (2 c ts)
  then show ?case by simp
next
  case (3 w ts)
  have "case rename_words v ts of [] \<Rightarrow> True | t # _ \<Rightarrow> \<not> is_W t"
    using "3.prems" by (cases ts rule: wf_tokens.cases) auto
  with 3 assms show ?case
    by (auto simp: word_name_def is_word_underscore)
qed

lemma dropWhile_rename_words:
  "dropWhile space_token (rename_words v ts) = rename_words v (dropWhile space_token ts)"
proof (induction ts)
  case Nil
  show ?case by simp
next
  case (Cons t ts)
  then show ?case by (cases t) auto
qed

lemma close_paren_rename_words:
  "close_paren (rename_words v' ts) = Some r \<Longrightarrow> close_paren ts \<noteq> None"
  unfolding close_paren_def dropWhile_rename_words
  by (cases "dropWhile space_token ts" rule: wf_tokens.cases) (auto split: if_splits)

lemma name_then_rename_words:
  assumes "good_name v"
  shows "name_then v (rename_words v' ts) = Some r \<Longrightarrow> name_then v ts \<noteq> None"
  unfolding name_then_def dropWhile_rename_words
  using good_name_neq [OF assms, of v']
  by (cases "dropWhile space_token ts" rule: wf_tokens.cases)
    (auto split: if_splits dest: close_paren_rename_words)

lemma catch_clause_rename_words:
  assumes "good_name v"
  shows "catch_clause v (rename_words v' ts) = Some r \<Longrightarrow> catch_clause v ts \<noteq> None"
  unfolding catch_clause_def dropWhile_rename_words
  by (cases "dropWhile space_token ts" rule: wf_tokens.cases)
    (auto split: if_splits dest: name_then_rename_words [OF assms])

lemma catch_occurs_rename_words:
  assumes "good_name v"
  shows "catch_occurs v (rename_words v' ts) \<Longrightarrow> catch_occurs v ts"
proof (induction ts)
  case Nil
  then show ?case by simp
next
  case (Cons t ts)
  show ?case
  proof (cases t)
    case (G c)
    with Cons show ?thesis by simp
  next
    case (W w)
    with Cons show ?thesis
      by (auto split: if_splits dest: catch_clause_rename_words [OF assms])
  qed
qed

subsection \<open>Renaming catch clauses\<close>

lemma rename_catch_G [simp]: "rename_catch v (G c # ts) = G c # rename_catch v ts"
  by simp

lemma rename_catch_W:
  "rename_catch v (W w # ts) =
     (case (if w = ''catch'' then catch_clause v ts else None) of
        Some rest \<Rightarrow> W w # G CHR '' '' # G CHR ''('' # W (CHR ''_'' # v) # G CHR '')'' # rename_catch v rest
      | None \<Rightarrow> W w # rename_catch v ts)"
  by (simp split: option.splits)

declare rename_catch.simps(2) [simp del]

lemma rename_catch_id: "\<not> catch_occurs v ts \<Longrightarrow> rename_catch v ts = ts"
proof (induction ts)
  case Nil
  show ?case by simp
next
  case (Cons t ts)
  then show ?case by (cases t) (auto simp: rename_catch_W)
qed

lemma close_paren_suffix: "close_paren ts = Some rest \<Longrightarrow> \<exists>pre. ts = pre @ rest"
proof -
  assume "close_paren ts = Some rest"
  then have "dropWhile space_token ts = G CHR '')'' # rest"
    by (auto simp: close_paren_def split: list.splits token.splits if_splits)
  then have "ts = (takeWhile space_token ts @ [G CHR '')'']) @ rest"
    by (metis append.assoc append_Cons append_Nil takeWhile_dropWhile_id)
  then show ?thesis ..
qed

lemma name_then_suffix: "name_then v ts = Some rest \<Longrightarrow> \<exists>pre. ts = pre @ rest"
proof -
  assume "name_then v ts = Some rest"
  then obtain ts' where d: "dropWhile space_token ts = W v # ts'" and c: "close_paren ts' = Some rest"
    by (auto simp: name_then_def split: list.splits token.splits if_splits)
  from close_paren_suffix [OF c] obtain pre where "ts' = pre @ rest" ..
  with d have "ts = (takeWhile space_token ts @ W v # pre) @ rest"
    by (metis append.assoc append_Cons takeWhile_dropWhile_id)
  then show ?thesis ..
qed

lemma catch_clause_suffix: "catch_clause v ts = Some rest \<Longrightarrow> \<exists>pre. ts = pre @ rest"
proof -
  assume "catch_clause v ts = Some rest"
  then obtain ts' where d: "dropWhile space_token ts = G CHR ''('' # ts'" and c: "name_then v ts' = Some rest"
    by (auto simp: catch_clause_def split: list.splits token.splits if_splits)
  from name_then_suffix [OF c] obtain pre where "ts' = pre @ rest" ..
  with d have "ts = (takeWhile space_token ts @ G CHR ''('' # pre) @ rest"
    by (metis append.assoc append_Cons takeWhile_dropWhile_id)
  then show ?thesis ..
qed

lemma catch_occurs_append: "catch_occurs v rest \<Longrightarrow> catch_occurs v (pre @ rest)"
  by (induction pre) auto

lemma rename_catch_set:
  "t \<in> set (rename_catch v ts) \<Longrightarrow>
   t \<in> set ts \<or> t \<in> {G CHR '' '', G CHR ''('', W (CHR ''_'' # v), G CHR '')''}"
proof (induction v ts rule: rename_catch.induct)
  case (1 v)
  then show ?case by simp
next
  case (2 v u ts)
  show ?case
  proof (cases u)
    case (G c)
    with 2 show ?thesis by auto
  next
    case (W w)
    show ?thesis
    proof (cases "if w = ''catch'' then catch_clause v ts else None")
      case None
      with W 2 show ?thesis
        by (auto simp: rename_catch_W split: if_splits)
    next
      case (Some rest)
      then have w: "w = ''catch''" and cc: "catch_clause v ts = Some rest"
        by (auto split: if_splits)
      from catch_clause_suffix [OF cc] obtain pre where "ts = pre @ rest" ..
      then have "set rest \<subseteq> set ts" by auto
      with "2.IH"(2) [OF _ cc] "2.prems" W w cc show ?thesis
        by (auto simp: rename_catch_W)
    qed
  qed
qed

lemma rename_catch_head:
  "rename_catch v ts = [] \<longleftrightarrow> ts = []"
  "rename_catch v ts \<noteq> [] \<Longrightarrow> hd (rename_catch v ts) = hd ts"
proof -
  show "rename_catch v ts = [] \<longleftrightarrow> ts = []"
    by (cases ts rule: wf_tokens.cases) (auto simp: rename_catch_W split: option.splits)
  show "rename_catch v ts \<noteq> [] \<Longrightarrow> hd (rename_catch v ts) = hd ts"
    by (cases ts rule: wf_tokens.cases) (auto simp: rename_catch_W split: option.splits)
qed

lemma wf_rename_catch:
  "word_name v \<Longrightarrow> wf_tokens ts \<Longrightarrow> wf_tokens (rename_catch v ts)"
proof (induction v ts rule: rename_catch.induct)
  case (1 v)
  show ?case by simp
next
  case (2 v u ts)
  note v = \<open>word_name v\<close>
  show ?case
  proof (cases u)
    case (G c)
    with 2 show ?thesis by auto
  next
    case (W w)
    with "2.prems" have w: "w \<noteq> []" "list_all is_word w" and wf: "wf_tokens ts"
      and nw: "case ts of [] \<Rightarrow> True | t # _ \<Rightarrow> \<not> is_W t"
      by simp_all
    show ?thesis
    proof (cases "if w = ''catch'' then catch_clause v ts else None")
      case None
      have wfr: "wf_tokens (rename_catch v ts)"
      proof (cases "u = W ''catch''")
        case True
        with None W have "catch_clause v ts = None" by simp
        from "2.IH"(1) [OF True this v wf] show ?thesis .
      next
        case False
        from "2.IH"(3) [OF False v wf] show ?thesis .
      qed
      have "case rename_catch v ts of [] \<Rightarrow> True | t # _ \<Rightarrow> \<not> is_W t"
        using nw rename_catch_head [of v ts]
        by (cases ts; cases "rename_catch v ts") auto
      with None W w wfr show ?thesis
        by (simp add: rename_catch_W)
    next
      case (Some rest)
      then have wc: "w = ''catch''" and cc: "catch_clause v ts = Some rest"
        by (auto split: if_splits)
      have "wf_tokens (rename_catch v rest)"
        using "2.IH"(2) [OF _ cc v catch_clause_wf [OF cc wf]] W wc by simp
      with W wc cc v show ?thesis
        by (simp add: rename_catch_W word_name_def is_word_underscore is_word_def)
    qed
  qed
qed

lemma dropWhile_rename_catch:
  "dropWhile space_token (rename_catch v ts) = rename_catch v (dropWhile space_token ts)"
proof (induction ts)
  case Nil
  show ?case by simp
next
  case (Cons t ts)
  then show ?case
    by (cases t) (auto simp: rename_catch_W split: option.splits)
qed

lemma rename_catch_eq_G:
  "rename_catch v ts = G c # X \<Longrightarrow> \<exists>ts'. ts = G c # ts' \<and> X = rename_catch v ts'"
  by (cases ts rule: wf_tokens.cases) (auto simp: rename_catch_W split: option.splits)

lemma close_paren_rename_catch:
  "close_paren (rename_catch v' ts) = Some r \<Longrightarrow> close_paren ts \<noteq> None"
proof -
  assume a: "close_paren (rename_catch v' ts) = Some r"
  define ts1 where "ts1 = dropWhile space_token ts"
  from a have "rename_catch v' ts1 = G CHR '')'' # r"
    by (auto simp: close_paren_def dropWhile_rename_catch ts1_def
        split: list.splits token.splits if_splits)
  then obtain ts' where "ts1 = G CHR '')'' # ts'"
    by (auto dest: rename_catch_eq_G)
  then show ?thesis
    by (simp add: close_paren_def ts1_def [symmetric])
qed

lemma close_paren_replaced:
  "close_paren (G CHR '' '' # G CHR ''('' # ts) = None"
  by (simp add: close_paren_def)

lemma name_then_rename_catch:
  "name_then v (rename_catch v' ts) = Some r \<Longrightarrow> name_then v ts \<noteq> None"
proof -
  assume a: "name_then v (rename_catch v' ts) = Some r"
  define ts1 where "ts1 = dropWhile space_token ts"
  from a obtain Y where y: "rename_catch v' ts1 = W v # Y" and c: "close_paren Y = Some r"
    by (auto simp: name_then_def dropWhile_rename_catch ts1_def
        split: list.splits token.splits if_splits)
  from y obtain ts' where t: "ts1 = W v # ts'"
    by (cases ts1 rule: wf_tokens.cases) (auto simp: rename_catch_W split: option.splits)
  have "close_paren ts' \<noteq> None"
  proof (cases "if v = ''catch'' then catch_clause v' ts' else None")
    case None
    with y t have "Y = rename_catch v' ts'"
      by (simp add: rename_catch_W)
    with c show ?thesis
      by (auto dest: close_paren_rename_catch)
  next
    case (Some rest)
    with y t have "Y = G CHR '' '' # G CHR ''('' # W (CHR ''_'' # v') # G CHR '')'' # rename_catch v' rest"
      by (simp add: rename_catch_W)
    with c show ?thesis
      by (simp add: close_paren_replaced)
  qed
  with t show ?thesis
    by (simp add: name_then_def ts1_def [symmetric])
qed

lemma catch_clause_rename_catch:
  "catch_clause v (rename_catch v' ts) = Some r \<Longrightarrow> catch_clause v ts \<noteq> None"
proof -
  assume a: "catch_clause v (rename_catch v' ts) = Some r"
  define ts1 where "ts1 = dropWhile space_token ts"
  from a obtain X where x: "rename_catch v' ts1 = G CHR ''('' # X" and n: "name_then v X = Some r"
    by (auto simp: catch_clause_def dropWhile_rename_catch ts1_def
        split: list.splits token.splits if_splits)
  from x obtain ts' where t: "ts1 = G CHR ''('' # ts'" and "X = rename_catch v' ts'"
    by (auto dest: rename_catch_eq_G)
  with n have "name_then v ts' \<noteq> None"
    by (auto dest: name_then_rename_catch)
  with t show ?thesis
    by (simp add: catch_clause_def ts1_def [symmetric])
qed

lemma catch_clause_replaced:
  assumes "good_name v"
  shows "catch_clause v (G CHR '' '' # G CHR ''('' # W (CHR ''_'' # v') # ts) = None"
  using good_name_neq [OF assms, of v']
  by (auto simp: catch_clause_def name_then_def)

lemma catch_occurs_rename_catch:
  assumes v: "good_name v"
  shows "catch_occurs v (rename_catch v' ts) \<Longrightarrow> catch_occurs v ts \<and> v \<noteq> v'"
proof (induction v' ts rule: rename_catch.induct)
  case (1 v')
  then show ?case by simp
next
  case (2 v' u ts)
  show ?case
  proof (cases u)
    case (G c)
    with 2 show ?thesis by auto
  next
    case (W w)
    show ?thesis
    proof (cases "if w = ''catch'' then catch_clause v' ts else None")
      case None
      from "2.prems" W None have
        o: "(w = ''catch'' \<and> catch_clause v (rename_catch v' ts) \<noteq> None) \<or>
            catch_occurs v (rename_catch v' ts)"
        by (simp add: rename_catch_W)
      then show ?thesis
      proof
        assume a: "w = ''catch'' \<and> catch_clause v (rename_catch v' ts) \<noteq> None"
        then have "catch_clause v ts \<noteq> None"
          by (auto dest: catch_clause_rename_catch)
        moreover from a None have "catch_clause v' ts = None" by simp
        ultimately show ?thesis using a W by auto
      next
        assume a: "catch_occurs v (rename_catch v' ts)"
        have "catch_occurs v ts \<and> v \<noteq> v'"
        proof (cases "u = W ''catch''")
          case True
          with None W have "catch_clause v' ts = None" by simp
          from "2.IH"(1) [OF True this a] show ?thesis .
        next
          case False
          from "2.IH"(3) [OF False a] show ?thesis .
        qed
        then show ?thesis by simp
      qed
    next
      case (Some rest)
      then have wc: "w = ''catch''" and cc: "catch_clause v' ts = Some rest"
        by (auto split: if_splits)
      from "2.prems" W wc cc have "catch_occurs v (rename_catch v' rest)"
        using good_name_neq [OF v, of v']
        by (simp add: rename_catch_W catch_clause_replaced [OF v])
      with "2.IH"(2) [OF _ cc] W wc have r: "catch_occurs v rest \<and> v \<noteq> v'" by simp
      from catch_clause_suffix [OF cc] obtain pre where "ts = pre @ rest" ..
      with r have "catch_occurs v ts"
        by (simp add: catch_occurs_append)
      with r show ?thesis by simp
    qed
  qed
qed

subsection \<open>A line and one message\<close>

lemma word_name_no_backslash: "word_name v \<Longrightarrow> CHR 0x5C \<notin> set v"
  by (auto simp: word_name_def list_all_iff is_word_def)

lemma expand_word: "word_name v \<Longrightarrow> expand tmpl (CHR ''_'' # v) = Some (\<lambda>_. CHR ''_'' # v)"
  by (auto simp: expand_def dest: word_name_no_backslash)

lemma expand_catch: "word_name v \<Longrightarrow> expand tmpl (catch_repl v) = Some (\<lambda>_. catch_repl v)"
  by (auto simp: expand_def catch_repl_def dest: word_name_no_backslash)

lemma re_sub_word:
  assumes "word_name v"
  shows "re_sub tmpl (word_re v) (CHR ''_'' # v) l = Inr (unlex (rename_words v (lex l)))"
proof -
  have "sub_from (word_re v) (\<lambda>_. CHR ''_'' # v) False None (unlex (lex l)) =
      unlex (rename_words v (lex l))"
    using assms wf_lex by (rule sub_word_tokens) (simp split: list.splits token.splits)
  then show ?thesis
    by (simp add: re_sub_def expand_word [OF assms] unlex_lex)
qed

lemma re_sub_catch:
  assumes "word_name v"
  shows "re_sub tmpl (catch_re v) (catch_repl v) l = Inr (unlex (rename_catch v (lex l)))"
proof -
  have "sub_from (catch_re v) (\<lambda>_. catch_repl v) False None (unlex (lex l)) =
      unlex (rename_catch v (lex l))"
    using assms wf_lex by (rule sub_catch_tokens) (simp split: list.splits token.splits)
  then show ?thesis
    by (simp add: re_sub_def expand_catch [OF assms] unlex_lex)
qed

lemma new_line_branches:
  "new_line tmpl v msg l =
     (if py_in ''catch'' l \<and> py_in ''Allowed unused caught errors'' msg
      then re_sub tmpl (catch_re v) (catch_repl v) l
      else re_sub tmpl (word_re v) (CHR ''_'' # v) l)"
  by (simp add: new_line_def Let_def catch_repl_def)

lemma new_line_tokens:
  assumes "word_name v"
  shows "new_line tmpl v msg l = Inr (unlex (rewrite_tokens v msg (lex l)))"
proof -
  have "py_in ''catch'' l = has_catch (lex l)"
    using has_catch_unlex [OF wf_lex, of l] by (simp add: unlex_lex)
  then show ?thesis
    by (simp add: new_line_branches rewrite_tokens_def re_sub_word [OF assms] re_sub_catch [OF assms])
qed

lemma wf_rewrite_tokens: "word_name v \<Longrightarrow> wf_tokens ts \<Longrightarrow> wf_tokens (rewrite_tokens v msg ts)"
  by (simp add: rewrite_tokens_def wf_rename_words wf_rename_catch)

lemma has_catch_rewrite_tokens: "has_catch (rewrite_tokens v msg ts) = has_catch ts"
  by (simp add: rewrite_tokens_def has_catch_rename_words has_catch_rename_catch)

lemma lex_new_line:
  assumes "word_name v" and "new_line tmpl v msg l = Inr l'"
  shows "lex l' = rewrite_tokens v msg (lex l)"
proof -
  from assms have "l' = unlex (rewrite_tokens v msg (lex l))"
    by (simp add: new_line_tokens)
  moreover have "wf_tokens (rewrite_tokens v msg (lex l))"
    using assms(1) wf_lex by (rule wf_rewrite_tokens)
  ultimately show ?thesis by (simp add: lex_unlex)
qed

lemma settled_established:
  assumes v: "good_name v" and nl: "new_line tmpl v msg l = Inr l'"
  shows "settled v msg l'"
proof -
  from v have wv: "word_name v" by (simp add: good_name_def)
  have lx: "lex l' = rewrite_tokens v msg (lex l)"
    using wv nl by (rule lex_new_line)
  show ?thesis
  proof (cases "has_catch (lex l) \<and> py_in ''Allowed unused caught errors'' msg")
    case True
    then have "lex l' = rename_catch v (lex l)"
      using lx by (simp add: rewrite_tokens_def)
    moreover have "\<not> catch_occurs v (rename_catch v (lex l))"
      using catch_occurs_rename_catch [OF v, of v "lex l"] by blast
    moreover have "has_catch (lex l')"
      using True lx by (simp add: has_catch_rewrite_tokens)
    ultimately show ?thesis using True by (simp add: settled_def)
  next
    case False
    then have "lex l' = rename_words v (lex l)"
      using lx by (auto simp: rewrite_tokens_def)
    moreover have "has_catch (lex l') = has_catch (lex l)"
      using lx by (simp add: has_catch_rewrite_tokens)
    ultimately show ?thesis
      using False rename_words_done [of v "lex l"] by (auto simp: settled_def)
  qed
qed

lemma settled_preserved:
  assumes v: "good_name v" and v': "word_name v'" and s: "settled v msg l"
    and nl: "new_line tmpl v' msg' l = Inr l'"
  shows "settled v msg l'"
proof -
  have lx: "lex l' = rewrite_tokens v' msg' (lex l)"
    using v' nl by (rule lex_new_line)
  have hc: "has_catch (lex l') = has_catch (lex l)"
    using lx by (simp add: has_catch_rewrite_tokens)
  show ?thesis
  proof (cases "has_catch (lex l) \<and> py_in ''Allowed unused caught errors'' msg")
    case True
    with s have "\<not> catch_occurs v (lex l)" by (simp add: settled_def)
    then have "\<not> catch_occurs v (lex l')"
      using lx catch_occurs_rename_catch [OF v, of v' "lex l"]
        catch_occurs_rename_words [OF v, of v' "lex l"]
      by (auto simp: rewrite_tokens_def split: if_splits)
    with True hc show ?thesis by (simp add: settled_def)
  next
    case False
    with s have "W v \<notin> set (lex l)" by (auto simp: settled_def)
    then have "W v \<notin> set (lex l')"
      using lx good_name_neq [OF v, of v']
      by (auto simp: rewrite_tokens_def split: if_splits
          dest!: rename_words_set rename_catch_set)
    with False hc show ?thesis by (auto simp: settled_def)
  qed
qed

lemma settled_fixed:
  assumes "word_name v" and "settled v msg l"
  shows "new_line tmpl v msg l = Inr l"
proof -
  from assms(2) have "rewrite_tokens v msg (lex l) = lex l"
    by (auto simp: settled_def rewrite_tokens_def rename_catch_id rename_words_id)
  then show ?thesis
    by (simp add: new_line_tokens [OF assms(1)] unlex_lex)
qed

subsection \<open>The name taken from a message\<close>

lemma search_ends:
  "search r p s = Some (i, k) \<Longrightarrow> \<exists>q. k \<in> set (ends r q (drop i s))"
proof (induction s arbitrary: p i)
  case Nil
  then have "k \<in> set (ends r p [])" "i = 0"
    by (auto split: list.splits)
  then show ?case by auto
next
  case (Cons c cs)
  show ?case
  proof (cases "ends r p (c # cs)")
    case Nil
    with Cons.prems obtain j where "search r (Some c) cs = Some (j, k)" and "i = Suc j"
      by auto
    with Cons.IH show ?thesis by auto
  next
    case (Cons k' ks)
    with Cons.prems have "i = 0" "k = k'" by auto
    with Cons show ?thesis by (metis drop0 list.set_intros(1))
  qed
qed

lemma ends_unused_re:
  assumes "k \<in> set (ends unused_re q t)"
  shows "\<exists>t'. t = CHR 0x27 # t' \<and> takeWhile (\<lambda>c. c \<noteq> CHR 0x27) t' \<noteq> []"
proof -
  from assms obtain k1 where
    k1: "k1 \<in> set (ends (Lit [CHR 0x27]) q t)"
    and k2: "ends (Seq (Plus (Not (CHR 0x27))) (Seq (Lit (CHR 0x27 # '' is ''))
       (Alt (Lit ''defined but never used'') (Lit ''assigned a value but never used''))))
       (prev_char q t k1) (drop k1 t) \<noteq> []"
    unfolding unused_re_def by (subst (asm) ends.simps(7)) force
  from k1 have s: "startswith t [CHR 0x27]" and "k1 = 1"
    by (auto split: if_splits)
  then obtain t' where t: "t = CHR 0x27 # t'"
    by (cases t) (auto simp: startswith_def)
  from k2 \<open>k1 = 1\<close> t have "ends (Plus (Not (CHR 0x27))) (prev_char q t 1) t' \<noteq> []"
    by (subst (asm) ends.simps(7)) auto
  then have "takeWhile (in_class (Not (CHR 0x27))) t' \<noteq> []"
    by auto
  moreover have "takeWhile (in_class (Not (CHR 0x27))) t' = takeWhile (\<lambda>c. c \<noteq> CHR 0x27) t'"
    by (rule takeWhile_cong) auto
  ultimately show ?thesis using t by simp
qed

lemma var_name_of_nonempty: "var_name_of msg = Some v \<Longrightarrow> v \<noteq> []"
proof -
  assume a: "var_name_of msg = Some v"
  then obtain i k where s: "search unused_re None msg = Some (i, k)"
    and v: "v = takeWhile (\<lambda>c. c \<noteq> CHR 0x27) (drop (Suc i) msg)"
    by (auto simp: var_name_of_def re_search_def split: option.splits)
  from search_ends [OF s] obtain q where "k \<in> set (ends unused_re q (drop i msg))" ..
  from ends_unused_re [OF this] obtain t' where
    "drop i msg = CHR 0x27 # t'" and ne: "takeWhile (\<lambda>c. c \<noteq> CHR 0x27) t' \<noteq> []"
    by blast
  then have "drop (Suc i) msg = t'"
    by (metis drop_Suc list.sel(3) tl_drop)
  with v ne show ?thesis by simp
qed

lemma word_var_name:
  "word_var error \<Longrightarrow> var_name_of (message error) = Some v \<Longrightarrow> word_name v"
  by (auto simp: word_var_def word_name_def dest: var_name_of_nonempty)

lemma word_var_good:
  "word_var error \<Longrightarrow> var_name_of (message error) = Some v \<Longrightarrow> \<not> startswith v ''_'' \<Longrightarrow> good_name v"
  by (simp add: good_name_def word_var_name)

subsection \<open>The buffer and the messages already processed\<close>

lemma process_error_cases:
  assumes "process_error tmpl (lines, n) error = Inr (lines', n')"
  shows "(lines' = lines \<and> n' = n \<and>
            (case var_name_of (message error) of None \<Rightarrow> True | Some v \<Rightarrow> startswith v ''_'')) \<or>
         (\<exists>v i nl. var_name_of (message error) = Some v \<and> \<not> startswith v ''_'' \<and>
            py_index lines (line error - 1) = Some i \<and>
            new_line tmpl v (message error) (lines ! i) = Inr nl \<and>
            lines' = lines[i := nl])"
  using assms
  by (auto simp: process_error_def Let_def split: option.splits sum.splits if_splits)

lemma done_msg_established:
  assumes w: "word_var error" and p: "process_error tmpl (lines, n) error = Inr (lines', n')"
  shows "done_msg lines' error"
proof -
  from process_error_cases [OF p] show ?thesis
  proof
    assume "lines' = lines \<and> n' = n \<and>
      (case var_name_of (message error) of None \<Rightarrow> True | Some v \<Rightarrow> startswith v ''_'')"
    then show ?thesis
      by (auto simp: done_msg_def split: option.splits)
  next
    assume "\<exists>v i nl. var_name_of (message error) = Some v \<and> \<not> startswith v ''_'' \<and>
            py_index lines (line error - 1) = Some i \<and>
            new_line tmpl v (message error) (lines ! i) = Inr nl \<and>
            lines' = lines[i := nl]"
    then obtain v i nl where v: "var_name_of (message error) = Some v" "\<not> startswith v ''_''"
      and i: "py_index lines (line error - 1) = Some i"
      and nl: "new_line tmpl v (message error) (lines ! i) = Inr nl"
      and l: "lines' = lines[i := nl]"
      by blast
    have "settled v (message error) nl"
      using word_var_good [OF w v] nl by (rule settled_established)
    moreover have "py_index lines' (line error - 1) = Some i"
      using i l py_index_length [of lines' lines] by simp
    moreover have "lines' ! i = nl"
      using l py_index_less [OF i] by simp
    ultimately show ?thesis
      using v by (simp add: done_msg_def)
  qed
qed

lemma done_msg_preserved:
  assumes w: "word_var error" and w0: "word_var e0" and d: "done_msg lines e0"
    and p: "process_error tmpl (lines, n) error = Inr (lines', n')"
  shows "done_msg lines' e0"
proof -
  from process_error_cases [OF p] show ?thesis
  proof
    assume "lines' = lines \<and> n' = n \<and>
      (case var_name_of (message error) of None \<Rightarrow> True | Some v \<Rightarrow> startswith v ''_'')"
    with d show ?thesis by simp
  next
    assume "\<exists>v i nl. var_name_of (message error) = Some v \<and> \<not> startswith v ''_'' \<and>
            py_index lines (line error - 1) = Some i \<and>
            new_line tmpl v (message error) (lines ! i) = Inr nl \<and>
            lines' = lines[i := nl]"
    then obtain v i nl where v: "var_name_of (message error) = Some v"
      and i: "py_index lines (line error - 1) = Some i"
      and nl: "new_line tmpl v (message error) (lines ! i) = Inr nl"
      and l: "lines' = lines[i := nl]"
      by blast
    have ix: "py_index lines' k = py_index lines k" for k
      using l by (simp add: py_index_def)
    show ?thesis
    proof (cases "var_name_of (message e0)")
      case None
      then show ?thesis by (simp add: done_msg_def)
    next
      case (Some v0)
      show ?thesis
      proof (cases "startswith v0 ''_''")
        case True
        with Some show ?thesis by (simp add: done_msg_def)
      next
        case False
        with d Some obtain j where j: "py_index lines (line e0 - 1) = Some j"
          and s: "settled v0 (message e0) (lines ! j)"
          by (auto simp: done_msg_def split: option.splits)
        have "settled v0 (message e0) (lines' ! j)"
        proof (cases "j = i")
          case True
          have "settled v0 (message e0) nl"
            using word_var_good [OF w0 Some False] word_var_name [OF w v] s nl
            unfolding True by (rule settled_preserved)
          then show ?thesis
            using True l py_index_less [OF i] by simp
        next
          case False
          with s l show ?thesis by simp
        qed
        with Some j show ?thesis
          by (simp add: done_msg_def ix)
      qed
    qed
  qed
qed

lemma done_msg_noop:
  assumes "word_var error" and "done_msg lines error"
  shows "process_error tmpl (lines, n) error = Inr (lines, n)"
proof (cases "var_name_of (message error)")
  case None
  then show ?thesis by (simp add: process_error_def)
next
  case (Some v)
  show ?thesis
  proof (cases "startswith v ''_''")
    case True
    with Some show ?thesis by (simp add: process_error_def)
  next
    case False
    with assms(2) Some obtain i where i: "py_index lines (line error - 1) = Some i"
      and s: "settled v (message error) (lines ! i)"
      by (auto simp: done_msg_def split: option.splits)
    have "new_line tmpl v (message error) (lines ! i) = Inr (lines ! i)"
      using word_var_name [OF assms(1) Some] s by (rule settled_fixed)
    with Some False i show ?thesis
      by (simp add: process_error_def)
  qed
qed

lemma process_errors_done:
  assumes "process_errors tmpl (lines, n) errors = Inr (lines', n')"
    and "\<forall>e \<in> set errors. word_var e"
    and "\<forall>e \<in> S. word_var e \<and> done_msg lines e"
  shows "\<forall>e \<in> S \<union> set errors. done_msg lines' e"
  using assms
proof (induction errors arbitrary: lines n S)
  case Nil
  then show ?case by simp
next
  case (Cons error errors)
  from Cons.prems(1) obtain l1 n1 where
    st: "process_error tmpl (lines, n) error = Inr (l1, n1)"
    and rest: "process_errors tmpl (l1, n1) errors = Inr (lines', n')"
    by (auto split: sum.splits)
  from Cons.prems(2) have w: "word_var error" and ws: "\<forall>e \<in> set errors. word_var e"
    by simp_all
  have "\<forall>e \<in> insert error S. word_var e \<and> done_msg l1 e"
    using Cons.prems(3) w done_msg_established [OF w st] done_msg_preserved [OF w _ _ st]
    by auto
  from Cons.IH [OF rest ws this] show ?case by simp
qed

lemma process_errors_noop:
  assumes "\<forall>e \<in> set errors. word_var e \<and> done_msg lines e"
  shows "process_errors tmpl (lines, n) errors = Inr (lines, n)"
  using assms by (induction errors) (auto simp: done_msg_noop)

lemma process_errors_twice:
  assumes "\<forall>e \<in> set errors. word_var e"
    and "process_errors tmpl (lines, n) errors = Inr (lines', n')"
  shows "process_errors tmpl (lines', n') errors = Inr (lines', n')"
proof -
  have "\<forall>e \<in> {} \<union> set errors. done_msg lines' e"
    using assms(2,1) by (rule process_errors_done) simp
  with assms(1) show ?thesis
    by (intro process_errors_noop) simp
qed

section \<open>The strategies and their repetition\<close>

subsection \<open>The choice of the strategy\<close>




subsection \<open>Running the pass again\<close>

text \<open>
  C4 (as the script has it). When the variable names of the messages are made of word
  characters and the pass over the messages of a file ends, a second pass with the same
  messages ends too and changes neither the buffer nor the counter. A message whose
  variable name starts with an underscore is skipped, whatever the buffer.
\<close>

theorem idempotent_pass:
  assumes "\<forall>e \<in> set errors. word_var e"
    and "process_errors tmpl (lines, total_fixed) errors = Inr (lines', total_fixed')"
  shows "process_errors tmpl (lines', total_fixed') errors = Inr (lines', total_fixed') \<and>
    (\<forall>st e v. var_name_of (message e) = Some v \<longrightarrow> startswith v ''_'' \<longrightarrow>
       process_error tmpl st e = Inr st)"
proof
  from assms show "process_errors tmpl (lines', total_fixed') errors = Inr (lines', total_fixed')"
    by (rule process_errors_twice)
  show "\<forall>st e v. var_name_of (message e) = Some v \<longrightarrow> startswith v ''_'' \<longrightarrow>
       process_error tmpl st e = Inr st"
    by (auto simp: process_error_def)
qed

theorem idempotent_pass_witness:
  "list_all word_var [\<lparr>line = 1, message = unused_msg ''x''\<rparr>, \<lparr>line = 1, message = unused_msg ''_y''\<rparr>,
       \<lparr>line = 2, message = caught_msg ''err''\<rparr>] \<and>
   process_errors (\<lambda>_. None) ([''const x = _y;'', ''} catch(err) {''], 0)
     [\<lparr>line = 1, message = unused_msg ''x''\<rparr>, \<lparr>line = 1, message = unused_msg ''_y''\<rparr>,
      \<lparr>line = 2, message = caught_msg ''err''\<rparr>]
     = Inr ([''const _x = _y;'', ''} catch (_err) {''], 2) \<and>
   process_errors (\<lambda>_. None) ([''const _x = _y;'', ''} catch (_err) {''], 2)
     [\<lparr>line = 1, message = unused_msg ''x''\<rparr>, \<lparr>line = 1, message = unused_msg ''_y''\<rparr>,
      \<lparr>line = 2, message = caught_msg ''err''\<rparr>]
     = Inr ([''const _x = _y;'', ''} catch (_err) {''], 2) \<and>
   process_error (\<lambda>_. None) ([''const x = _y;'', ''} catch(err) {''], 0)
     \<lparr>line = 1, message = unused_msg ''_y''\<rparr> = Inr ([''const x = _y;'', ''} catch(err) {''], 0)"
proof -
  let ?es = "[\<lparr>line = 1, message = unused_msg ''x''\<rparr>, \<lparr>line = 1, message = unused_msg ''_y''\<rparr>,
      \<lparr>line = 2, message = caught_msg ''err''\<rparr>]"
  have lw: "list_all word_var ?es" by code_simp
  then have w: "\<forall>e \<in> set ?es. word_var e" by (simp only: list_all_iff)
  have p: "process_errors (\<lambda>_. None) ([''const x = _y;'', ''} catch(err) {''], 0) ?es
     = Inr ([''const _x = _y;'', ''} catch (_err) {''], 2)"
    by code_simp
  have v: "var_name_of (message \<lparr>line = 1, message = unused_msg ''_y''\<rparr>) = Some ''_y''"
    by code_simp
  have u: "startswith ''_y'' ''_''" by code_simp
  note th = idempotent_pass [OF w p]
  from th have a: "process_errors (\<lambda>_. None) ([''const _x = _y;'', ''} catch (_err) {''], 2) ?es
     = Inr ([''const _x = _y;'', ''} catch (_err) {''], 2)"
    by simp
  from th v u have b: "process_error (\<lambda>_. None) ([''const x = _y;'', ''} catch(err) {''], 0)
     \<lparr>line = 1, message = unused_msg ''_y''\<rparr> = Inr ([''const x = _y;'', ''} catch(err) {''], 0)"
    by blast
  from lw p a b show ?thesis by blast
qed

theorem idempotent_pass_counterexample:
  "process_errors (\<lambda>_. None) ([''const a$x = 1, $x = 2;''], 0) [\<lparr>line = 1, message = unused_msg ''$x''\<rparr>]
     = Inr ([''const a_$x = 1, $x = 2;''], 1) \<and>
   process_errors (\<lambda>_. None) ([''const a_$x = 1, $x = 2;''], 1) [\<lparr>line = 1, message = unused_msg ''$x''\<rparr>]
     = Inr ([''const a__$x = 1, $x = 2;''], 2)"
  by code_simp

end
